theory Spec2Isabelle
  imports Main "HOL-Library.Word" "HOL-Library.Multiset"
begin

unbundle bit_operations_syntax

section \<open>Keys and key functions (sort helpers)\<close>

text \<open>
  \<^verbatim>\<open>type Key uint64\<close>. A \<^verbatim>\<open>float64\<close> enters the model as the 64-bit pattern that
  \<^verbatim>\<open>math.Float64bits\<close> returns, a \<^verbatim>\<open>float32\<close> as its 32-bit pattern, an \<^verbatim>\<open>int64\<close> as
  its two's complement pattern. In Go \<^verbatim>\<open>>>\<close> binds tighter than binary \<^verbatim>\<open>-\<close>, so
  \<^verbatim>\<open>b>>63 - 1\<close> is \<^verbatim>\<open>(b>>63) - 1\<close>.
\<close>

type_synonym Key = "64 word"

definition Float32Key :: "32 word \<Rightarrow> Key" where
  "Float32Key f =
     (let b = push_bit 32 (ucast f :: Key)
      in b XOR (NOT (drop_bit 63 b - 1) OR push_bit 63 1))"

definition Float32Less :: "32 word \<Rightarrow> 32 word \<Rightarrow> bool" where
  "Float32Less f g \<longleftrightarrow> Float32Key f < Float32Key g"

definition Float64Key :: "64 word \<Rightarrow> Key" where
  "Float64Key f = (let b = f in b XOR (NOT (drop_bit 63 b - 1) OR push_bit 63 1))"

definition Float64Less :: "64 word \<Rightarrow> 64 word \<Rightarrow> bool" where
  "Float64Less f g \<longleftrightarrow> Float64Key f < Float64Key g"

definition Int64Key :: "64 word \<Rightarrow> Key" where
  "Int64Key i = i XOR push_bit 63 1"

text \<open>
  IEEE-754 binary64 classes of a bit pattern: sign bit 63, biased exponent in bits
  52 to 62, fraction in bits 0 to 51. A NaN has exponent \<open>0x7FF\<close> and a nonzero
  fraction; a finite number has an exponent below \<open>0x7FF\<close>.
\<close>

definition sign64 :: "64 word \<Rightarrow> bool" where
  "sign64 f \<longleftrightarrow> bit f 63"

definition exponent64 :: "64 word \<Rightarrow> 64 word" where
  "exponent64 f = drop_bit 52 f AND 0x7FF"

definition fraction64 :: "64 word \<Rightarrow> 64 word" where
  "fraction64 f = f AND 0xFFFFFFFFFFFFF"

definition isNaN64 :: "64 word \<Rightarrow> bool" where
  "isNaN64 f \<longleftrightarrow> exponent64 f = 0x7FF \<and> fraction64 f \<noteq> 0"

definition finite64 :: "64 word \<Rightarrow> bool" where
  "finite64 f \<longleftrightarrow> exponent64 f \<noteq> 0x7FF"

definition MaxFloat64 :: "64 word" where
  "MaxFloat64 = 0x7FEFFFFFFFFFFFFF"

section \<open>Collections behind Go interfaces\<close>

text \<open>
  A Go interface value is a method table over a receiver. The model keeps the two
  apart: a record of operations over a state type \<open>'s\<close>, and the state itself, passed
  in and returned. \<^verbatim>\<open>radix.Interface\<close> embeds \<^verbatim>\<open>sort.Interface\<close>, and so do the builder
  interfaces, hence the record extensions. Go's \<^verbatim>\<open>int\<close> is \<open>int\<close>; a method that
  panics returns \<open>Inl\<close>. Results of the engine are of type \<open>(error + 'a) option\<close>:
  \<open>None\<close> is a call that does not return, \<open>Some (Inl e)\<close> a panic,
  \<open>Some (Inr x)\<close> a normal return.
\<close>

datatype error = IndexOutOfRange | LenOutOfRange | LessKeyMismatch | FailedToSort

record 's sort_Interface =
  Len :: "'s \<Rightarrow> int"
  Less :: "'s \<Rightarrow> int \<Rightarrow> int \<Rightarrow> error + bool"
  Swap :: "'s \<Rightarrow> int \<Rightarrow> int \<Rightarrow> error + 's"

record 's Interface = "'s sort_Interface" +
  Key :: "'s \<Rightarrow> int \<Rightarrow> error + Key"

text \<open>
  Go's \<^verbatim>\<open>int\<close> is the 64-bit integer. Sums that can leave its range on a call the
  engine makes are reduced by \<open>int64\<close>, two's complement wrap-around; the others are
  guarded by the loop tests around them (\<open>i < b\<close> before \<open>i + 1\<close>).
\<close>

definition int64 :: "int \<Rightarrow> int" where
  "int64 x = (x + 2 ^ 63) mod 2 ^ 64 - 2 ^ 63"

definition radix :: nat where
  "radix = 8"

definition radix_mask :: Key where
  "radix_mask = push_bit radix 1 - 1"

definition qSortCutoff :: int where
  "qSortCutoff = 2 ^ 7"

definition digit :: "nat \<Rightarrow> Key \<Rightarrow> nat" where
  "digit shift k = unat (drop_bit shift k AND radix_mask)"

section \<open>check\<close>

function check_from :: "'s Interface \<Rightarrow> 's \<Rightarrow> int \<Rightarrow> int \<Rightarrow> error + unit" where
  "check_from data s l i =
     (if i < l then
        (case Less data s i (i - 1) of
           Inl e \<Rightarrow> Inl e
         | Inr lt \<Rightarrow>
             if lt then
               (case Key data s i of
                  Inl e \<Rightarrow> Inl e
                | Inr ki \<Rightarrow>
                    (case Key data s (i - 1) of
                       Inl e \<Rightarrow> Inl e
                     | Inr kj \<Rightarrow> if ki > kj then Inl LessKeyMismatch else Inl FailedToSort))
             else check_from data s l (i + 1))
      else Inr ())"
  by pat_completeness auto
termination
  by (relation "measure (\<lambda>(data, s, l, i). nat (l - i))") auto

definition check :: "'s Interface \<Rightarrow> 's \<Rightarrow> int \<Rightarrow> error + unit" where
  "check data s l = check_from data s l 1"

section \<open>guessInitialShift\<close>

partial_function (option) guess_scan ::
  "'s Interface \<Rightarrow> 's \<Rightarrow> int \<Rightarrow> int \<Rightarrow> int \<Rightarrow> Key \<times> Key \<Rightarrow> (error + Key \<times> Key) option" where
  "guess_scan data s l step i mm =
     (if i < l then
        (case Key data s i of
           Inl e \<Rightarrow> Some (Inl e)
         | Inr k \<Rightarrow>
             guess_scan data s l step (int64 (i + step))
               (if k < fst mm then k else fst mm, if k > snd mm then k else snd mm))
      else Some (Inr mm))"

function log2diff_by_radix :: "Key \<Rightarrow> int \<Rightarrow> int" where
  "log2diff_by_radix diff log2diff =
     (if diff \<noteq> 0 then log2diff_by_radix (drop_bit radix diff) (log2diff + int radix)
      else log2diff)"
  by pat_completeness auto
termination
proof (relation "measure (\<lambda>(diff, log2diff). unat diff)")
  show "wf (measure (\<lambda>(diff, log2diff). unat diff))" by simp
next
  fix diff :: Key and log2diff :: int
  assume "diff \<noteq> 0"
  then have "0 < unat diff" by (simp add: unat_gt_0)
  then have "drop_bit radix (unat diff) < unat diff"
    by (simp add: radix_def drop_bit_eq_div)
  then show "((drop_bit radix diff, log2diff + int radix), (diff, log2diff))
      \<in> measure (\<lambda>(diff, log2diff). unat diff)"
    by (simp add: unat_drop_bit_eq)
qed

definition guessInitialShift :: "'s Interface \<Rightarrow> 's \<Rightarrow> int \<Rightarrow> (error + nat) option" where
  "guessInitialShift data s l =
     (let step = l div 2 ^ 5;
          step = (if l > 2 ^ 16 then l div 2 ^ 8 else step);
          step = (if step = 0 then 1 else step)
      in case Key data s (l - 1) of
           Inl e \<Rightarrow> Some (Inl e)
         | Inr k0 \<Rightarrow>
             (case guess_scan data s l step 0 (k0, k0) of
                None \<Rightarrow> None
              | Some (Inl e) \<Rightarrow> Some (Inl e)
              | Some (Inr (mn, mx)) \<Rightarrow>
                  let diff = mn XOR mx;
                      log2diff = log2diff_by_radix diff 0;
                      shiftGuess = log2diff - int radix
                  in if shiftGuess < 0 then Some (Inr 0) else Some (Inr (nat shiftGuess))))"

section \<open>radixSort and Sort\<close>

text \<open>
  \<^verbatim>\<open>qSort\<close> is called by the engine and is not among the repository's files at hand.
  It is a parameter of \<open>radixSort\<close> and \<open>Sort\<close>, of this type; what is assumed of it
  is stated as \<open>qSort_contract\<close> below.
\<close>

type_synonym 's qSort_fn = "'s Interface \<Rightarrow> int \<Rightarrow> int \<Rightarrow> 's \<Rightarrow> (error + 's) option"

text \<open>
  The counting pass of \<^verbatim>\<open>radixSort\<close>:
  \<^verbatim>\<open>for i := a; i < b; i++ { k := data.Key(i); bucketStarts[(k>>shift)&mask]++; ... }\<close>.
  The array \<^verbatim>\<open>[1 << radix]int\<close> is a list of 256 entries; a digit is below 256, so
  no access to it is out of range.
\<close>

function count_pass ::
  "'s Interface \<Rightarrow> 's \<Rightarrow> nat \<Rightarrow> int \<Rightarrow> int \<Rightarrow> int list \<times> Key \<times> Key
     \<Rightarrow> error + int list \<times> Key \<times> Key" where
  "count_pass data s shift b i st =
     (if i < b then
        (case Key data s i of
           Inl e \<Rightarrow> Inl e
         | Inr k \<Rightarrow>
             (case st of (bucketStarts, mn, mx) \<Rightarrow>
                count_pass data s shift b (i + 1)
                  (bucketStarts[digit shift k := bucketStarts ! digit shift k + 1],
                   if k < mn then k else mn,
                   if k > mx then k else mx)))
      else Inr st)"
  by pat_completeness auto
termination
  by (relation "measure (\<lambda>(data, s, shift, b, i, st). nat (b - i))") auto

function log2diff_by_bit :: "Key \<Rightarrow> int \<Rightarrow> int" where
  "log2diff_by_bit diff log2diff =
     (if diff \<noteq> 0 then log2diff_by_bit (drop_bit 1 diff) (log2diff + 1) else log2diff)"
  by pat_completeness auto
termination
proof (relation "measure (\<lambda>(diff, log2diff). unat diff)")
  show "wf (measure (\<lambda>(diff, log2diff). unat diff))" by simp
next
  fix diff :: Key and log2diff :: int
  assume "diff \<noteq> 0"
  then have "0 < unat diff" by (simp add: unat_gt_0)
  then have "drop_bit 1 (unat diff) < unat diff"
    by (simp add: drop_bit_eq_div)
  then show "((drop_bit 1 diff, log2diff + 1), (diff, log2diff))
      \<in> measure (\<lambda>(diff, log2diff). unat diff)"
    by (simp add: unat_drop_bit_eq)
qed

text \<open>
  \<^verbatim>\<open>for i, c := range bucketStarts { bucketStarts[i] = pos; pos += c; bucketEnds[i] = pos }\<close>:
  from the counts and the start position to the pair (bucketStarts, bucketEnds).
\<close>

fun bucket_bounds :: "int list \<Rightarrow> int \<Rightarrow> int list \<times> int list" where
  "bucket_bounds [] pos = ([], [])"
| "bucket_bounds (c # cs) pos =
     (case bucket_bounds cs (pos + c) of
        (bucketStarts, bucketEnds) \<Rightarrow> (pos # bucketStarts, (pos + c) # bucketEnds))"

text \<open>
  The inner loop of the permutation sweep, \<^verbatim>\<open>for i < bucketEnd { ... }\<close>. It advances
  \<open>i\<close> only when the element is already in its bucket, so for an arbitrary collection
  it need not return.
\<close>

partial_function (option) sweep_bucket ::
  "'s Interface \<Rightarrow> nat \<Rightarrow> nat \<Rightarrow> int \<Rightarrow> 's \<Rightarrow> int list \<Rightarrow> int
     \<Rightarrow> (error + 's \<times> int list) option" where
  "sweep_bucket data shift curBucket bucketEnd s bucketStarts i =
     (if i < bucketEnd then
        (case Key data s i of
           Inl e \<Rightarrow> Some (Inl e)
         | Inr k \<Rightarrow>
             (let destBucket = digit shift k in
              if destBucket = curBucket then
                sweep_bucket data shift curBucket bucketEnd s
                  (bucketStarts[destBucket := bucketStarts ! destBucket + 1]) (i + 1)
              else
                (case Swap data s i (bucketStarts ! destBucket) of
                   Inl e \<Rightarrow> Some (Inl e)
                 | Inr s' \<Rightarrow>
                     sweep_bucket data shift curBucket bucketEnd s'
                       (bucketStarts[destBucket := bucketStarts ! destBucket + 1]) i)))
      else Some (Inr (s, bucketStarts)))"

text \<open>\<^verbatim>\<open>for curBucket, bucketEnd := range bucketEnds { i := bucketStarts[curBucket]; ... }\<close>\<close>

fun sweep ::
  "'s Interface \<Rightarrow> nat \<Rightarrow> (nat \<times> int) list \<Rightarrow> 's \<Rightarrow> int list
     \<Rightarrow> (error + 's \<times> int list) option" where
  "sweep data shift [] s bucketStarts = Some (Inr (s, bucketStarts))"
| "sweep data shift ((curBucket, bucketEnd) # rest) s bucketStarts =
     (case sweep_bucket data shift curBucket bucketEnd s bucketStarts
             (bucketStarts ! curBucket) of
        None \<Rightarrow> None
      | Some (Inl e) \<Rightarrow> Some (Inl e)
      | Some (Inr (s', bucketStarts')) \<Rightarrow> sweep data shift rest s' bucketStarts')"

text \<open>
  The two closing loops of \<^verbatim>\<open>radixSort\<close> have one shape,
  \<^verbatim>\<open>pos = a; for _, end := range bucketEnds { if end > pos+1 { f(data, pos, end) }; pos = end }\<close>,
  with \<^verbatim>\<open>qSort\<close> or the recursive call for \<open>f\<close>.
\<close>

fun each_bucket ::
  "(int \<Rightarrow> int \<Rightarrow> 's \<Rightarrow> (error + 's) option) \<Rightarrow> int list \<Rightarrow> int \<Rightarrow> 's
     \<Rightarrow> (error + 's) option" where
  "each_bucket f [] pos s = Some (Inr s)"
| "each_bucket f (e # ends) pos s =
     (if e > int64 (pos + 1) then
        (case f pos e s of
           None \<Rightarrow> None
         | Some (Inl err) \<Rightarrow> Some (Inl err)
         | Some (Inr s') \<Rightarrow> each_bucket f ends e s')
      else each_bucket f ends e s)"

text \<open>
  The stages of one \<^verbatim>\<open>radixSort\<close> call, in the order of the source: the counting pass
  started from \<^verbatim>\<open>min := data.Key(a)\<close> and a zeroed array; the shift recomputed from
  \<^verbatim>\<open>diff\<close> when the current one is wrong; the bucket bounds followed by the permutation
  sweep, which hands the local array \<^verbatim>\<open>bucketEnds\<close> to the closing loop.
\<close>

definition scan_range ::
  "'s Interface \<Rightarrow> 's \<Rightarrow> nat \<Rightarrow> int \<Rightarrow> int \<Rightarrow> error + int list \<times> Key \<times> Key" where
  "scan_range data s shift a b =
     (case Key data s a of
        Inl e \<Rightarrow> Inl e
      | Inr k0 \<Rightarrow> count_pass data s shift b a (replicate (2 ^ radix) 0, k0, k0))"

definition corrected_shift :: "Key \<Rightarrow> nat" where
  "corrected_shift diff =
     (let log2diff = log2diff_by_bit diff 0;
          nextShift = log2diff - int radix;
          nextShift = (if nextShift < 0 then 0 else nextShift)
      in nat nextShift)"

definition permute_range ::
  "'s Interface \<Rightarrow> nat \<Rightarrow> int \<Rightarrow> int list \<Rightarrow> 's \<Rightarrow> (error + 's \<times> int list) option" where
  "permute_range data shift a counts s =
     (case bucket_bounds counts a of
        (bucketStarts, bucketEnds) \<Rightarrow>
          (case sweep data shift (enumerate 0 bucketEnds) s bucketStarts of
             None \<Rightarrow> None
           | Some (Inl e) \<Rightarrow> Some (Inl e)
           | Some (Inr (s', bucketStarts')) \<Rightarrow> Some (Inr (s', bucketEnds))))"

text \<open>
  \<open>radixSort\<close> takes the number of nested calls it may make as its first argument and
  does not return (\<open>None\<close>) when that is used up. The scratch array is zeroed at the
  start of every call and never read by a caller after a callee returns, so every
  call starts from its own zeroed array.
\<close>

function radixSort ::
  "nat \<Rightarrow> 's qSort_fn \<Rightarrow> 's Interface \<Rightarrow> nat \<Rightarrow> int \<Rightarrow> int \<Rightarrow> 's \<Rightarrow> (error + 's) option" where
  "radixSort 0 qSort data shift a b s = None"
| "radixSort (Suc depth) qSort data shift a b s =
     (if b - a < qSortCutoff then qSort data a b s
      else
        (case scan_range data s shift a b of
           Inl e \<Rightarrow> Some (Inl e)
         | Inr (counts, mn, mx) \<Rightarrow>
             (let diff = mn XOR mx in
              if diff = 0 then qSort data a b s
              else if drop_bit shift diff = 0 \<or> drop_bit (shift + radix) diff \<noteq> 0 then
                radixSort depth qSort data (corrected_shift diff) a b s
              else
                (case permute_range data shift a counts s of
                   None \<Rightarrow> None
                 | Some (Inl e) \<Rightarrow> Some (Inl e)
                 | Some (Inr (s', bucketEnds)) \<Rightarrow>
                     if shift = 0 then each_bucket (qSort data) bucketEnds a s'
                     else
                       each_bucket
                         (\<lambda>pos e. radixSort depth qSort data
                            (if shift < radix then 0 else shift - radix) pos e)
                         bucketEnds a s'))))"
  by pat_completeness auto
termination
  by (relation "measure (\<lambda>(depth, qSort, data, shift, a, b, s). depth)") auto

definition Sort :: "nat \<Rightarrow> 's qSort_fn \<Rightarrow> 's Interface \<Rightarrow> 's \<Rightarrow> (error + 's) option" where
  "Sort depth qSort data s =
     (let l = Len data s in
      if l < qSortCutoff then qSort data 0 l s
      else
        (case guessInitialShift data s l of
           None \<Rightarrow> None
         | Some (Inl e) \<Rightarrow> Some (Inl e)
         | Some (Inr shift) \<Rightarrow> radixSort depth qSort data shift 0 l s))"

section \<open>The index: keys stored beside the data\<close>

record 's IndexBuilder = "'s sort_Interface" +
  SetKeys :: "'s \<Rightarrow> Key list \<Rightarrow> int \<Rightarrow> error + Key list"

record 's StringInterface = "'s sort_Interface" +
  StringAt :: "'s \<Rightarrow> int \<Rightarrow> error + string"

record 's BytesInterface = "'s sort_Interface" +
  BytesAt :: "'s \<Rightarrow> int \<Rightarrow> error + 8 word list"

text \<open>
  \<^verbatim>\<open>type index struct { Keys []Key; sort.Interface }\<close>: the state of an index is the key
  array and the state of the embedded collection, here the field \<open>Data\<close>.
\<close>

record 'd index =
  Keys :: "Key list"
  Data :: 'd

definition index_Key :: "'d index \<Rightarrow> int \<Rightarrow> error + Key" where
  "index_Key idx i =
     (if 0 \<le> i \<and> i < int (length (Keys idx)) then Inr (Keys idx ! nat i)
      else Inl IndexOutOfRange)"

definition index_Less ::
  "('d, 'm) sort_Interface_scheme \<Rightarrow> 'd index \<Rightarrow> int \<Rightarrow> int \<Rightarrow> error + bool" where
  "index_Less data idx i j =
     (case index_Key idx i of
        Inl e \<Rightarrow> Inl e
      | Inr ki \<Rightarrow>
          (case index_Key idx j of
             Inl e \<Rightarrow> Inl e
           | Inr kj \<Rightarrow>
               if ki < kj then Inr True
               else if ki = kj then Less data (Data idx) i j
               else Inr False))"

definition index_Swap ::
  "('d, 'm) sort_Interface_scheme \<Rightarrow> 'd index \<Rightarrow> int \<Rightarrow> int \<Rightarrow> error + 'd index" where
  "index_Swap data idx i j =
     (if 0 \<le> i \<and> i < int (length (Keys idx)) \<and> 0 \<le> j \<and> j < int (length (Keys idx)) then
        (case Swap data (Data idx) i j of
           Inl e \<Rightarrow> Inl e
         | Inr d' \<Rightarrow>
             Inr \<lparr>Keys = (Keys idx)[nat i := Keys idx ! nat j, nat j := Keys idx ! nat i],
                  Data = d'\<rparr>)
      else Inl IndexOutOfRange)"

definition index_Interface :: "('d, 'm) sort_Interface_scheme \<Rightarrow> 'd index Interface" where
  "index_Interface data =
     \<lparr>Len = (\<lambda>idx. Len data (Data idx)),
      Less = index_Less data,
      Swap = index_Swap data,
      Key = index_Key\<rparr>"

definition SortIndex ::
  "nat \<Rightarrow> 'd index qSort_fn \<Rightarrow> 'd IndexBuilder \<Rightarrow> 'd \<Rightarrow> (error + 'd index) option" where
  "SortIndex depth qSort data d =
     (let l = Len data d in
      if l < 0 then Some (Inl LenOutOfRange)
      else
        (let idx = \<lparr>Keys = replicate (nat l) 0, Data = d\<rparr> in
         case SetKeys data d (Keys idx) 0 of
           Inl e \<Rightarrow> Some (Inl e)
         | Inr keys \<Rightarrow> Sort depth qSort (index_Interface data) (idx\<lparr>Keys := keys\<rparr>)))"

text \<open>
  \<^verbatim>\<open>stringKey\<close> and \<^verbatim>\<open>bytesKey\<close>. The variable \<^verbatim>\<open>shift\<close> is a \<^verbatim>\<open>uint\<close>; its last
  decrement, from 0, is never read.
\<close>

function stringKey_from :: "string \<Rightarrow> nat \<Rightarrow> Key \<Rightarrow> nat \<Rightarrow> Key" where
  "stringKey_from s j k shift =
     (if j < 8 \<and> j < length s then
        stringKey_from s (j + 1) (k XOR push_bit shift (of_char (s ! j))) (shift - 8)
      else k)"
  by pat_completeness auto
termination
  by (relation "measure (\<lambda>(s, j, k, shift). 8 - j)") auto

definition stringKey :: "string \<Rightarrow> Key" where
  "stringKey s = stringKey_from s 0 0 56"

function bytesKey_from :: "8 word list \<Rightarrow> nat \<Rightarrow> Key \<Rightarrow> nat \<Rightarrow> Key" where
  "bytesKey_from b j k shift =
     (if j < 8 \<and> j < length b then
        bytesKey_from b (j + 1) (k XOR push_bit shift (ucast (b ! j))) (shift - 8)
      else k)"
  by pat_completeness auto
termination
  by (relation "measure (\<lambda>(b, j, k, shift). 8 - j)") auto

definition bytesKey :: "8 word list \<Rightarrow> Key" where
  "bytesKey b = bytesKey_from b 0 0 56"

function stringIndexBuilder_SetKeys_from ::
  "'s StringInterface \<Rightarrow> 's \<Rightarrow> int \<Rightarrow> int \<Rightarrow> Key list \<Rightarrow> int \<Rightarrow> error + Key list" where
  "stringIndexBuilder_SetKeys_from sib s a l keys i =
     (if i < int (length keys) then
        (if i + a = l then Inr keys
         else
           (case StringAt sib s (i + a) of
              Inl e \<Rightarrow> Inl e
            | Inr str \<Rightarrow>
                stringIndexBuilder_SetKeys_from sib s a l
                  (keys[nat i := stringKey str]) (i + 1)))
      else Inr keys)"
  by pat_completeness auto
termination
  by (relation "measure (\<lambda>(sib, s, a, l, keys, i). nat (int (length keys) - i))") auto

definition stringIndexBuilder_SetKeys ::
  "'s StringInterface \<Rightarrow> 's \<Rightarrow> Key list \<Rightarrow> int \<Rightarrow> error + Key list" where
  "stringIndexBuilder_SetKeys sib s keys a =
     (let l = Len sib s in stringIndexBuilder_SetKeys_from sib s a l keys 0)"

function bytesIndexBuilder_SetKeys_from ::
  "'s BytesInterface \<Rightarrow> 's \<Rightarrow> int \<Rightarrow> int \<Rightarrow> Key list \<Rightarrow> int \<Rightarrow> error + Key list" where
  "bytesIndexBuilder_SetKeys_from bib s a l keys i =
     (if i < int (length keys) then
        (if i + a = l then Inr keys
         else
           (case BytesAt bib s (i + a) of
              Inl e \<Rightarrow> Inl e
            | Inr bs \<Rightarrow>
                bytesIndexBuilder_SetKeys_from bib s a l
                  (keys[nat i := bytesKey bs]) (i + 1)))
      else Inr keys)"
  by pat_completeness auto
termination
  by (relation "measure (\<lambda>(bib, s, a, l, keys, i). nat (int (length keys) - i))") auto

definition bytesIndexBuilder_SetKeys ::
  "'s BytesInterface \<Rightarrow> 's \<Rightarrow> Key list \<Rightarrow> int \<Rightarrow> error + Key list" where
  "bytesIndexBuilder_SetKeys bib s keys a =
     (let l = Len bib s in bytesIndexBuilder_SetKeys_from bib s a l keys 0)"

definition stringIndexBuilder :: "'s StringInterface \<Rightarrow> 's IndexBuilder" where
  "stringIndexBuilder sib =
     \<lparr>Len = Len sib, Less = Less sib, Swap = Swap sib,
      SetKeys = stringIndexBuilder_SetKeys sib\<rparr>"

definition bytesIndexBuilder :: "'s BytesInterface \<Rightarrow> 's IndexBuilder" where
  "bytesIndexBuilder bib =
     \<lparr>Len = Len bib, Less = Less bib, Swap = Swap bib,
      SetKeys = bytesIndexBuilder_SetKeys bib\<rparr>"

definition SortStrings ::
  "nat \<Rightarrow> 's index qSort_fn \<Rightarrow> 's StringInterface \<Rightarrow> 's \<Rightarrow> (error + 's index) option" where
  "SortStrings depth qSort data s = SortIndex depth qSort (stringIndexBuilder data) s"

definition SortBytes ::
  "nat \<Rightarrow> 's index qSort_fn \<Rightarrow> 's BytesInterface \<Rightarrow> 's \<Rightarrow> (error + 's index) option" where
  "SortBytes depth qSort data s = SortIndex depth qSort (bytesIndexBuilder data) s"

section \<open>Typed slices\<close>

text \<open>
  The slice types of the helper file share one shape: \<^verbatim>\<open>Len\<close> is \<^verbatim>\<open>len(p)\<close>,
  \<^verbatim>\<open>Less(i, j)\<close> compares \<^verbatim>\<open>p[i]\<close> with \<^verbatim>\<open>p[j]\<close>, \<^verbatim>\<open>Swap\<close> exchanges the two entries
  and \<^verbatim>\<open>Key(i)\<close> is a key function of \<^verbatim>\<open>p[i]\<close>. An index expression \<^verbatim>\<open>p[i]\<close> outside
  \<open>0 \<le> i < len(p)\<close> panics.
\<close>

definition at :: "'a list \<Rightarrow> int \<Rightarrow> error + 'a" where
  "at p i = (if 0 \<le> i \<and> i < int (length p) then Inr (p ! nat i) else Inl IndexOutOfRange)"

definition slice_Less :: "('a \<Rightarrow> 'a \<Rightarrow> bool) \<Rightarrow> 'a list \<Rightarrow> int \<Rightarrow> int \<Rightarrow> error + bool" where
  "slice_Less lt p i j =
     (case at p i of
        Inl e \<Rightarrow> Inl e
      | Inr x \<Rightarrow> (case at p j of Inl e \<Rightarrow> Inl e | Inr y \<Rightarrow> Inr (lt x y)))"

definition slice_Swap :: "'a list \<Rightarrow> int \<Rightarrow> int \<Rightarrow> error + 'a list" where
  "slice_Swap p i j =
     (case at p i of
        Inl e \<Rightarrow> Inl e
      | Inr x \<Rightarrow>
          (case at p j of
             Inl e \<Rightarrow> Inl e
           | Inr y \<Rightarrow> Inr (p[nat i := y, nat j := x])))"

definition slice_Key :: "('a \<Rightarrow> Key) \<Rightarrow> 'a list \<Rightarrow> int \<Rightarrow> error + Key" where
  "slice_Key kf p i = (case at p i of Inl e \<Rightarrow> Inl e | Inr x \<Rightarrow> Inr (kf x))"

definition slice_Interface :: "('a \<Rightarrow> 'a \<Rightarrow> bool) \<Rightarrow> ('a \<Rightarrow> Key) \<Rightarrow> 'a list Interface" where
  "slice_Interface lt kf =
     \<lparr>Len = (\<lambda>p. int (length p)), Less = slice_Less lt, Swap = slice_Swap,
      Key = slice_Key kf\<rparr>"

definition Int64Slice :: "64 word list Interface" where
  "Int64Slice = slice_Interface (\<lambda>x y. sint x < sint y) Int64Key"

definition Uint64Slice :: "64 word list Interface" where
  "Uint64Slice = slice_Interface (\<lambda>x y. x < y) (\<lambda>x. x)"

definition Float64Slice :: "64 word list Interface" where
  "Float64Slice = slice_Interface Float64Less Float64Key"

text \<open>Go compares strings byte by byte.\<close>

fun string_less :: "string \<Rightarrow> string \<Rightarrow> bool" where
  "string_less [] [] = False"
| "string_less [] (y # ys) = True"
| "string_less (x # xs) [] = False"
| "string_less (x # xs) (y # ys) =
     ((of_char x :: nat) < of_char y \<or> (x = y \<and> string_less xs ys))"

definition StringSlice :: "string list StringInterface" where
  "StringSlice =
     \<lparr>Len = (\<lambda>p. int (length p)), Less = slice_Less string_less, Swap = slice_Swap,
      StringAt = at\<rparr>"

text \<open>\<^verbatim>\<open>bytes.Compare(p[i], p[j]) < 0\<close>: the same order on byte slices.\<close>

fun bytes_less :: "8 word list \<Rightarrow> 8 word list \<Rightarrow> bool" where
  "bytes_less [] [] = False"
| "bytes_less [] (y # ys) = True"
| "bytes_less (x # xs) [] = False"
| "bytes_less (x # xs) (y # ys) = (x < y \<or> (x = y \<and> bytes_less xs ys))"

definition BytesSlice :: "8 word list list BytesInterface" where
  "BytesSlice =
     \<lparr>Len = (\<lambda>p. int (length p)), Less = slice_Less bytes_less, Swap = slice_Swap,
      BytesAt = at\<rparr>"

section \<open>A stand-in for qSort\<close>

text \<open>
  Modelled from the spec: \<^verbatim>\<open>qSort\<close>, the small-range fallback sort, whose source is not
  among the files at hand. The specification asks for a comparison sort that works in
  place on a half-open range through \<^verbatim>\<open>Less\<close> and \<^verbatim>\<open>Swap\<close> alone and names insertion
  sort as one choice; this is insertion sort,
  \<^verbatim>\<open>for i := a + 1; i < b; i++ { for j := i; j > a && data.Less(j, j-1); j-- { data.Swap(j, j-1) } }\<close>.
  It serves where a concrete fallback is needed to run the engine on an input.
\<close>

function insert_down :: "'s Interface \<Rightarrow> int \<Rightarrow> int \<Rightarrow> 's \<Rightarrow> error + 's" where
  "insert_down data a j s =
     (if j > a then
        (case Less data s j (j - 1) of
           Inl e \<Rightarrow> Inl e
         | Inr lt \<Rightarrow>
             if lt then
               (case Swap data s j (j - 1) of
                  Inl e \<Rightarrow> Inl e
                | Inr s' \<Rightarrow> insert_down data a (j - 1) s')
             else Inr s)
      else Inr s)"
  by pat_completeness auto
termination
  by (relation "measure (\<lambda>(data, a, j, s). nat (j - a))") auto

function insertion_sort_from :: "'s Interface \<Rightarrow> int \<Rightarrow> int \<Rightarrow> int \<Rightarrow> 's \<Rightarrow> error + 's" where
  "insertion_sort_from data a b i s =
     (if i < b then
        (case insert_down data a i s of
           Inl e \<Rightarrow> Inl e
         | Inr s' \<Rightarrow> insertion_sort_from data a b (i + 1) s')
      else Inr s)"
  by pat_completeness auto
termination
  by (relation "measure (\<lambda>(data, a, b, i, s). nat (b - i))") auto

definition qSort_model :: "'s qSort_fn" where
  "qSort_model data a b s = Some (insertion_sort_from data a b (a + 1) s)"

section \<open>Notions used to state the properties\<close>

text \<open>\<open>top_bit d h\<close>: bit \<open>h\<close> is the highest set bit of \<open>d\<close>.\<close>

definition top_bit :: "Key \<Rightarrow> nat \<Rightarrow> bool" where
  "top_bit d h \<longleftrightarrow> bit d h \<and> (\<forall>n>h. \<not> bit d n)"

text \<open>
  The stride of \<^verbatim>\<open>guessInitialShift\<close>, the indices it reads (the last element and
  every multiple of the stride below \<open>l\<close>), and the XOR of the smallest and the
  largest key read, for keys given by position.
\<close>

definition guess_step :: "int \<Rightarrow> int" where
  "guess_step l =
     (let step = l div 2 ^ 5;
          step = (if l > 2 ^ 16 then l div 2 ^ 8 else step);
          step = (if step = 0 then 1 else step)
      in step)"

definition sample_indices :: "int \<Rightarrow> int set" where
  "sample_indices l = insert (l - 1) {j. 0 \<le> j \<and> j < l \<and> guess_step l dvd j}"

definition sampled_diff :: "(int \<Rightarrow> Key) \<Rightarrow> int \<Rightarrow> Key" where
  "sampled_diff k l = Min (k ` sample_indices l) XOR Max (k ` sample_indices l)"

text \<open>
  The value the specification gives for the guess, from the position \<open>h\<close> of the
  highest set bit: rounded down to a multiple of 8, reduced by 8, clamped at 0.
\<close>

definition claimed_shift :: "nat \<Rightarrow> nat" where
  "claimed_shift h = nat (max 0 (int (8 * (h div 8)) - 8))"

text \<open>
  The capability contract. A collection is lawful for a view \<open>elems\<close> of its states as
  lists of elements, a key function and an order on elements when, on every state the
  view covers: \<^verbatim>\<open>Len\<close> is the length of the list; \<^verbatim>\<open>Key\<close> and \<^verbatim>\<open>Less\<close> read the
  elements at the given positions and panic, as an index expression on a segment does,
  outside \<open>0 \<le> i < Len\<close>; \<^verbatim>\<open>Swap\<close> exchanges the two elements and panics likewise.
  A state the view does not cover (\<open>None\<close>) is one the contract says nothing about.
\<close>

definition lawful ::
  "'s Interface \<Rightarrow> ('s \<Rightarrow> 'e list option) \<Rightarrow> ('e \<Rightarrow> Key) \<Rightarrow> ('e \<Rightarrow> 'e \<Rightarrow> bool) \<Rightarrow> bool" where
  "lawful data elems key lt \<longleftrightarrow>
     (\<forall>s xs. elems s = Some xs \<longrightarrow>
        Len data s = int (length xs) \<and>
        (\<forall>i. Key data s i =
           (if 0 \<le> i \<and> i < int (length xs) then Inr (key (xs ! nat i))
            else Inl IndexOutOfRange)) \<and>
        (\<forall>i j. Less data s i j =
           (if 0 \<le> i \<and> i < int (length xs) \<and> 0 \<le> j \<and> j < int (length xs)
            then Inr (lt (xs ! nat i) (xs ! nat j))
            else Inl IndexOutOfRange)) \<and>
        (\<forall>i j.
           if 0 \<le> i \<and> i < int (length xs) \<and> 0 \<le> j \<and> j < int (length xs)
           then \<exists>s'. Swap data s i j = Inr s' \<and>
                  elems s' = Some (xs[nat i := xs ! nat j, nat j := xs ! nat i])
           else Swap data s i j = Inl IndexOutOfRange))"

text \<open>The key induces the order: a smaller key means less, and less never has a larger key.\<close>

definition key_consistent :: "('e \<Rightarrow> Key) \<Rightarrow> ('e \<Rightarrow> 'e \<Rightarrow> bool) \<Rightarrow> bool" where
  "key_consistent key lt \<longleftrightarrow>
     (\<forall>x y. key x < key y \<longrightarrow> lt x y) \<and> (\<forall>x y. lt x y \<longrightarrow> key x \<le> key y)"

definition segment :: "nat \<Rightarrow> nat \<Rightarrow> 'a list \<Rightarrow> 'a list" where
  "segment a b xs = take (b - a) (drop a xs)"

text \<open>
  \<open>perm_in_range a b xs ys\<close>: \<open>ys\<close> is \<open>xs\<close> with the elements at positions \<open>a \<le> j < b\<close>
  rearranged and every other position untouched. \<open>range_sorted\<close> adds that no element
  of the range is less than its left neighbour in the range.
\<close>

definition perm_in_range :: "nat \<Rightarrow> nat \<Rightarrow> 'a list \<Rightarrow> 'a list \<Rightarrow> bool" where
  "perm_in_range a b xs ys \<longleftrightarrow>
     length ys = length xs \<and>
     (\<forall>j. j < length xs \<and> (j < a \<or> b \<le> j) \<longrightarrow> ys ! j = xs ! j) \<and>
     mset (segment a b ys) = mset (segment a b xs)"

definition in_order :: "('e \<Rightarrow> 'e \<Rightarrow> bool) \<Rightarrow> nat \<Rightarrow> nat \<Rightarrow> 'e list \<Rightarrow> bool" where
  "in_order lt a b ys \<longleftrightarrow> (\<forall>j. a < j \<and> j < b \<longrightarrow> \<not> lt (ys ! j) (ys ! (j - 1)))"

definition range_sorted ::
  "('e \<Rightarrow> 'e \<Rightarrow> bool) \<Rightarrow> nat \<Rightarrow> nat \<Rightarrow> 'e list \<Rightarrow> 'e list \<Rightarrow> bool" where
  "range_sorted lt a b xs ys \<longleftrightarrow> perm_in_range a b xs ys \<and> in_order lt a b ys"

text \<open>
  What is assumed of \<^verbatim>\<open>qSort\<close>: on a lawful collection and a range
  \<open>0 \<le> a \<le> b \<le> Len\<close> it returns, and leaves the range a rearrangement of itself in
  which no element is less than its left neighbour, and everything else in place.
\<close>

definition qSort_contract ::
  "'s qSort_fn \<Rightarrow> 's Interface \<Rightarrow> ('s \<Rightarrow> 'e list option) \<Rightarrow> ('e \<Rightarrow> 'e \<Rightarrow> bool) \<Rightarrow> bool" where
  "qSort_contract qSort data elems lt \<longleftrightarrow>
     (\<forall>s xs a b. elems s = Some xs \<and> a \<le> b \<and> b \<le> length xs \<longrightarrow>
        (\<exists>s' ys. qSort data (int a) (int b) s = Some (Inr s') \<and> elems s' = Some ys \<and>
           range_sorted lt a b xs ys))"

text \<open>
  Bucket geometry of one partitioning pass over a range whose elements form the
  multiset \<open>M\<close>, for a digit function \<open>d\<close>: bucket \<open>v\<close> starts after the elements of
  smaller digit and ends after those of digit \<open>v\<close>.
\<close>

definition bucket_count :: "('e \<Rightarrow> nat) \<Rightarrow> 'e multiset \<Rightarrow> nat \<Rightarrow> nat" where
  "bucket_count d M v = size (filter_mset (\<lambda>x. d x = v) M)"

definition bucket_start :: "('e \<Rightarrow> nat) \<Rightarrow> 'e multiset \<Rightarrow> nat \<Rightarrow> nat \<Rightarrow> nat" where
  "bucket_start d M a v = a + size (filter_mset (\<lambda>x. d x < v) M)"

definition bucket_end :: "('e \<Rightarrow> nat) \<Rightarrow> 'e multiset \<Rightarrow> nat \<Rightarrow> nat \<Rightarrow> nat" where
  "bucket_end d M a v = a + size (filter_mset (\<lambda>x. d x \<le> v) M)"

text \<open>\<open>same_prefix n K\<close>: the keys in \<open>K\<close> agree on every bit from bit \<open>n\<close> upwards.\<close>

definition same_prefix :: "nat \<Rightarrow> Key set \<Rightarrow> bool" where
  "same_prefix n K \<longleftrightarrow> (\<forall>x\<in>K. \<forall>y\<in>K. drop_bit n x = drop_bit n y)"

section \<open>Lawful collections, segments and the counting pass\<close>

subsection \<open>Minimum and maximum kept while scanning\<close>

lemma Min_insert_if:
  fixes a b :: "'a :: linorder"
  shows "finite A \<Longrightarrow> Min (insert (if b < a then b else a) A) = Min (insert a (insert b A))"
  by (cases "A = {}") (auto simp add: min_def)

lemma Max_insert_if:
  fixes a b :: "'a :: linorder"
  shows "finite A \<Longrightarrow> Max (insert (if a < b then b else a) A) = Max (insert a (insert b A))"
  by (cases "A = {}") (auto simp add: max_def)

subsection \<open>Sums inside the 64-bit range\<close>

lemma int64_id: "- (2 ^ 63) \<le> x \<Longrightarrow> x < 2 ^ 63 \<Longrightarrow> int64 x = x"
  by (simp add: int64_def)

subsection \<open>Lawful collections\<close>

lemma lawful_Len: "lawful data elems key lt \<Longrightarrow> elems s = Some xs \<Longrightarrow> Len data s = int (length xs)"
  by (simp add: lawful_def)

lemma lawful_Key:
  "lawful data elems key lt \<Longrightarrow> elems s = Some xs \<Longrightarrow> j < length xs \<Longrightarrow>
   Key data s (int j) = Inr (key (xs ! j))"
  by (simp add: lawful_def)

lemma lawful_Less:
  "lawful data elems key lt \<Longrightarrow> elems s = Some xs \<Longrightarrow> i < length xs \<Longrightarrow> j < length xs \<Longrightarrow>
   Less data s (int i) (int j) = Inr (lt (xs ! i) (xs ! j))"
  by (simp add: lawful_def)

lemma lawful_Swap:
  assumes "lawful data elems key lt" and "elems s = Some xs" and "i < length xs" and "j < length xs"
  shows "\<exists>s'. Swap data s (int i) (int j) = Inr s' \<and> elems s' = Some (xs[i := xs ! j, j := xs ! i])"
proof -
  from assms(1,2) have "\<forall>i j.
           if 0 \<le> i \<and> i < int (length xs) \<and> 0 \<le> j \<and> j < int (length xs)
           then \<exists>s'. Swap data s i j = Inr s' \<and>
                  elems s' = Some (xs[nat i := xs ! nat j, nat j := xs ! nat i])
           else Swap data s i j = Inl IndexOutOfRange"
    unfolding lawful_def by blast
  from this [rule_format, of "int i" "int j"] assms(3,4) show ?thesis by simp
qed

text \<open>The typed slices are lawful, each state being its own list of elements.\<close>

lemma lawful_slice: "lawful (slice_Interface lt kf) Some kf lt"
  by (auto simp add: lawful_def slice_Interface_def slice_Key_def slice_Less_def slice_Swap_def
      at_def)

subsection \<open>Segments\<close>

lemma length_segment: "b \<le> length xs \<Longrightarrow> length (segment a b xs) = b - a"
  by (simp add: segment_def)

lemma segment_Cons: "i < b \<Longrightarrow> b \<le> length xs \<Longrightarrow> segment i b xs = xs ! i # segment (Suc i) b xs"
proof -
  assume a: "i < b" "b \<le> length xs"
  then have "drop i xs = xs ! i # drop (Suc i) xs" by (simp add: Cons_nth_drop_Suc)
  moreover from a have "b - i = Suc (b - Suc i)" by simp
  ultimately show ?thesis by (simp add: segment_def)
qed

lemma segment_empty: "b \<le> a \<Longrightarrow> segment a b xs = []"
  by (simp add: segment_def)

lemma nth_segment: "j < b - a \<Longrightarrow> b \<le> length xs \<Longrightarrow> segment a b xs ! j = xs ! (a + j)"
  by (simp add: segment_def)

lemma set_segment: "b \<le> length xs \<Longrightarrow> set (segment a b xs) = {xs ! j |j. a \<le> j \<and> j < b}"
proof -
  assume b: "b \<le> length xs"
  have "set (segment a b xs) = {segment a b xs ! i |i. i < b - a}"
    using b by (simp add: set_conv_nth length_segment)
  also have "\<dots> = {xs ! (a + i) |i. i < b - a}"
  proof -
    have "segment a b xs ! i = xs ! (a + i)" if "i < b - a" for i
      using that b by (rule nth_segment)
    then show ?thesis by metis
  qed
  also have "\<dots> = {xs ! j |j. a \<le> j \<and> j < b}"
  proof (intro set_eqI iffI; clarify)
    fix i assume "i < b - a"
    then show "\<exists>j. xs ! (a + i) = xs ! j \<and> a \<le> j \<and> j < b" by (intro exI [of _ "a + i"]) simp
  next
    fix j assume "a \<le> j" "j < b"
    then show "\<exists>i. xs ! j = xs ! (a + i) \<and> i < b - a" by (intro exI [of _ "j - a"]) simp
  qed
  finally show ?thesis .
qed

lemma segment_append: "a \<le> p \<Longrightarrow> p \<le> b \<Longrightarrow> segment a b xs = segment a p xs @ segment p b xs"
proof -
  assume h: "a \<le> p" "p \<le> b"
  have "take (b - a) (drop a xs) = take (p - a) (drop a xs) @ take (b - p) (drop (p - a) (drop a xs))"
    using h by (metis Nat.add_diff_assoc2 le_add_diff_inverse2 take_add add.commute diff_add_inverse2 le_add_diff_inverse)
  then show ?thesis using h by (simp add: segment_def)
qed


subsection \<open>Digits\<close>

lemma radix_mask_eq: "radix_mask = mask 8"
  by (simp add: radix_mask_def radix_def mask_eq_exp_minus_1)

lemma digit_eq: "digit shift k = (unat k div 2 ^ shift) mod 256"
proof -
  have "drop_bit shift k AND radix_mask = take_bit 8 (drop_bit shift k)"
    by (simp add: radix_mask_eq take_bit_eq_mask)
  then have "digit shift k = take_bit 8 (drop_bit shift (unat k))"
    by (simp add: digit_def unsigned_take_bit_eq unat_drop_bit_eq)
  then show ?thesis by (simp add: take_bit_eq_mod drop_bit_eq_div)
qed

lemma digit_less: "digit shift k < 256"
  by (simp add: digit_eq)

subsection \<open>The counting pass\<close>

declare count_pass.simps [simp del]

lemma count_pass_result:
  assumes "lawful data elems key lt" and "elems s = Some xs" and "b \<le> length xs"
    and "length bs = 256" and "i \<le> b"
  shows "count_pass data s shift (int b) (int i) (bs, mn, mx) =
     Inr (map (\<lambda>v. bs ! v +
                 int (bucket_count (\<lambda>x. digit shift (key x)) (mset (segment i b xs)) v))
            [0..<256],
          Min (insert mn (key ` set (segment i b xs))),
          Max (insert mx (key ` set (segment i b xs))))"
  using assms(4,5)
proof (induction "b - i" arbitrary: i bs mn mx)
  case 0
  then have e: "segment i b xs = []" by (simp add: segment_empty)
  have "map (\<lambda>v. bs ! v) [0..<256] = bs" using 0(2) map_nth [of bs] by simp
  moreover have "\<not> int i < int b" using 0 by simp
  ultimately show ?case
    by (subst count_pass.simps) (simp add: e bucket_count_def)
next
  case (Suc n)
  then have ib: "i < b" by simp
  let ?x = "xs ! i" and ?d = "\<lambda>x. digit shift (key x)"
  let ?bs = "bs[?d ?x := bs ! ?d ?x + 1]"
  let ?mn = "if key ?x < mn then key ?x else mn" and ?mx = "if mx < key ?x then key ?x else mx"
  have seg: "segment i b xs = ?x # segment (Suc i) b xs"
    using ib assms(3) by (rule segment_Cons)
  have key: "Key data s (int i) = Inr (key ?x)"
    using ib assms(3) by (intro lawful_Key [OF assms(1,2)]) simp
  have n: "n = b - Suc i" using Suc.hyps(2) by simp
  have ih: "count_pass data s shift (int b) (int (Suc i)) (?bs, ?mn, ?mx) =
     Inr (map (\<lambda>v. ?bs ! v + int (bucket_count ?d (mset (segment (Suc i) b xs)) v)) [0..<256],
          Min (insert ?mn (key ` set (segment (Suc i) b xs))),
          Max (insert ?mx (key ` set (segment (Suc i) b xs))))"
    using Suc.prems ib by (intro Suc.hyps(1) [OF n]) simp_all
  have cnt: "map (\<lambda>v. ?bs ! v + int (bucket_count ?d (mset (segment (Suc i) b xs)) v)) [0..<256] =
     map (\<lambda>v. bs ! v + int (bucket_count ?d (mset (segment i b xs)) v)) [0..<256]"
  proof (rule map_cong [OF refl])
    fix v assume "v \<in> set [0..<256]"
    then have "v < length bs" using Suc.prems(1) by simp
    then show "?bs ! v + int (bucket_count ?d (mset (segment (Suc i) b xs)) v) =
               bs ! v + int (bucket_count ?d (mset (segment i b xs)) v)"
      by (simp add: seg bucket_count_def nth_list_update)
  qed
  have mn: "Min (insert ?mn (key ` set (segment (Suc i) b xs))) =
            Min (insert mn (key ` set (segment i b xs)))"
    by (simp only: seg list.set image_insert Min_insert_if [OF finite_imageI [OF finite_set]])
  have mx: "Max (insert ?mx (key ` set (segment (Suc i) b xs))) =
            Max (insert mx (key ` set (segment i b xs)))"
    by (simp only: seg list.set image_insert Max_insert_if [OF finite_imageI [OF finite_set]])
  have step: "count_pass data s shift (int b) (int i) (bs, mn, mx) =
        count_pass data s shift (int b) (int (Suc i)) (?bs, ?mn, ?mx)"
    using ib by (subst count_pass.simps) (simp add: key add.commute)
  show ?case unfolding step ih cnt mn mx ..
qed

lemma scan_range_result:
  assumes "lawful data elems key lt" and "elems s = Some xs" and "a < b" and "b \<le> length xs"
  shows "scan_range data s shift (int a) (int b) =
     Inr (map (\<lambda>v. int (bucket_count (\<lambda>x. digit shift (key x)) (mset (segment a b xs)) v)) [0..<256],
          Min (key ` set (segment a b xs)), Max (key ` set (segment a b xs)))"
proof -
  have key: "Key data s (int a) = Inr (key (xs ! a))"
    using assms(3,4) by (intro lawful_Key [OF assms(1,2)]) simp
  have "xs ! a \<in> set (segment a b xs)" using assms(3,4) by (simp add: segment_Cons)
  then have ins: "insert (key (xs ! a)) (key ` set (segment a b xs)) = key ` set (segment a b xs)"
    by auto
  have "count_pass data s shift (int b) (int a) (replicate 256 0, key (xs ! a), key (xs ! a)) =
     Inr (map (\<lambda>v. replicate 256 0 ! v +
                 int (bucket_count (\<lambda>x. digit shift (key x)) (mset (segment a b xs)) v)) [0..<256],
          Min (insert (key (xs ! a)) (key ` set (segment a b xs))),
          Max (insert (key (xs ! a)) (key ` set (segment a b xs))))"
    using assms(3,4) by (intro count_pass_result [OF assms(1,2)]) simp_all
  moreover have "map (\<lambda>v. replicate 256 0 ! v +
                 int (bucket_count (\<lambda>x. digit shift (key x)) (mset (segment a b xs)) v)) [0..<256] =
       map (\<lambda>v. int (bucket_count (\<lambda>x. digit shift (key x)) (mset (segment a b xs)) v)) [0..<256]"
    by (rule map_cong) simp_all
  ultimately show ?thesis by (simp add: scan_range_def key radix_def ins)
qed

section \<open>Float keys\<close>

lemma drop_bit_63: "drop_bit 63 (b :: 64 word) = (if bit b 63 then 1 else 0)"
proof (rule bit_word_eqI)
  fix n :: nat
  assume "n < LENGTH(64)"
  have "bit b (63 + n) \<Longrightarrow> n = 0"
    using bit_imp_le_length [of b "63 + n"] by simp
  then show "bit (drop_bit 63 b) n \<longleftrightarrow> bit (if bit b 63 then 1 else 0 :: 64 word) n"
    by (auto simp add: bit_simps)
qed

lemma bit63_iff: "bit (w :: 64 word) 63 \<longleftrightarrow> 2 ^ 63 \<le> w"
proof -
  have lt: "unat w < 2 ^ 64" using unsigned_less [of w, where ?'a = nat] by simp
  have "bit w 63 \<longleftrightarrow> bit (unat w) 63"
    by (simp add: bit_unsigned_iff)
  also have "\<dots> \<longleftrightarrow> odd (unat w div 2 ^ 63)"
    by (rule bit_iff_odd)
  also have "\<dots> \<longleftrightarrow> 2 ^ 63 \<le> unat w"
  proof
    assume "odd (unat w div 2 ^ 63)"
    then have "unat w div 2 ^ 63 \<noteq> 0" by (metis even_zero)
    then show "2 ^ 63 \<le> unat w" by (simp add: div_eq_0_iff not_less)
  next
    assume ge: "2 ^ 63 \<le> unat w"
    have "unat w div 2 ^ 63 < 2" using lt by (simp add: less_mult_imp_div_less)
    moreover have "1 \<le> unat w div 2 ^ 63" using ge by (simp add: Suc_le_eq div_greater_zero_iff)
    ultimately have "unat w div 2 ^ 63 = 1" by linarith
    then show "odd (unat w div 2 ^ 63)" by simp
  qed
  also have "\<dots> \<longleftrightarrow> 2 ^ 63 \<le> w" by (simp add: word_le_nat_alt)
  finally show ?thesis .
qed

lemma Float64Key_neg: "sign64 f \<Longrightarrow> Float64Key f = NOT f"
  by (simp add: Float64Key_def sign64_def drop_bit_63 Let_def)

lemma Float64Key_pos: "\<not> sign64 f \<Longrightarrow> Float64Key f = f XOR 2 ^ 63"
  by (simp add: Float64Key_def sign64_def drop_bit_63 Let_def)

text \<open>
  The parts of the float ordering that hold: every value with the sign bit set has a
  key below every value with the sign bit clear, and the keys of \<open>-0.0\<close> and \<open>+0.0\<close>
  are neighbours.
\<close>

lemma Float64Key_negative_below_positive:
  assumes "sign64 f" and "\<not> sign64 g"
  shows "Float64Key f < Float64Key g"
proof -
  have "\<not> bit (Float64Key f) 63"
    using assms(1) by (simp add: Float64Key_neg sign64_def bit_simps)
  then have "Float64Key f < 2 ^ 63" by (simp add: bit63_iff)
  moreover have "bit (Float64Key g) 63"
    using assms(2) by (simp add: Float64Key_pos sign64_def bit_simps)
  then have "2 ^ 63 \<le> Float64Key g" by (simp add: bit63_iff)
  ultimately show ?thesis by simp
qed

lemma Float64Key_zeros:
  "Float64Key 0x8000000000000000 < Float64Key 0 \<and>
   Float64Key 0x8000000000000000 + 1 = Float64Key 0"
  by (simp add: Float64Key_def)

text \<open>
  C2. The claim: finite negatives before finite positives, \<open>-0.0\<close> next to and below
  \<open>+0.0\<close>, and every NaN pattern, with sign bit 0 or 1, above the key of the largest
  finite value. The last part fails for a NaN whose sign bit is set: its pattern is
  complemented as a whole, so its key is below the key of every number. At the quiet
  NaN \<open>0xFFF8000000000000\<close> the key is \<open>0x0007FFFFFFFFFFFF\<close>, which is below the key of
  \<open>MaxFloat64\<close> and below the key of minus infinity, \<open>0xFFF0000000000000\<close>; so
  \<^verbatim>\<open>Float64Less\<close> puts this NaN first although its comment reads
  "treating NaN as greater than all numbers".
\<close>

theorem Float64Key_negative_NaN_first:
  "isNaN64 0xFFF8000000000000 \<and> sign64 0xFFF8000000000000 \<and>
   Float64Key 0xFFF8000000000000 = 0x0007FFFFFFFFFFFF \<and>
   Float64Key 0xFFF8000000000000 < Float64Key MaxFloat64 \<and>
   Float64Less 0xFFF8000000000000 0xFFF0000000000000"
  by (simp add: isNaN64_def sign64_def exponent64_def fraction64_def Float64Key_def
      Float64Less_def MaxFloat64_def)

section \<open>check\<close>

declare check_from.simps [simp del]

lemma check_from_skip:
  assumes "\<forall>j. i \<le> j \<and> j < k \<longrightarrow> Less data s j (j - 1) = Inr False"
    and "i \<le> k" and "k \<le> l"
  shows "check_from data s l i = check_from data s l k"
  using assms
proof (induction "nat (k - i)" arbitrary: i)
  case 0
  then show ?case by simp
next
  case (Suc n)
  then have "i < k" and "i < l" by linarith+
  with Suc.prems have "Less data s i (i - 1) = Inr False" by simp
  with \<open>i < l\<close> have "check_from data s l i = check_from data s l (i + 1)"
    by (subst check_from.simps) simp
  moreover have "check_from data s l (i + 1) = check_from data s l k"
    using Suc.hyps(2) Suc.prems \<open>i < k\<close> by (intro Suc.hyps(1)) auto
  ultimately show ?case by simp
qed

text \<open>
  C7, as the code has it. \<open>check data s l\<close> returns normally when no pair
  \<open>(i, i - 1)\<close> with \<open>1 \<le> i < l\<close> has \<open>Less(i, i - 1)\<close>. At the first pair that has,
  it panics: with "Less and Key do not order items the same way" exactly when
  \<open>Key(i) > Key(i - 1)\<close>, and with "failed to sort data" otherwise, that is when
  \<open>Key(i) \<le> Key(i - 1)\<close>, equal or smaller.
\<close>

theorem check_outcome:
  "((\<forall>i. 1 \<le> i \<and> i < l \<longrightarrow> Less data s i (i - 1) = Inr False) \<longrightarrow> check data s l = Inr ()) \<and>
   (\<forall>i ki kj. 1 \<le> i \<and> i < l \<and> (\<forall>j. 1 \<le> j \<and> j < i \<longrightarrow> Less data s j (j - 1) = Inr False) \<and>
       Less data s i (i - 1) = Inr True \<and> Key data s i = Inr ki \<and> Key data s (i - 1) = Inr kj \<longrightarrow>
       check data s l = Inl (if kj < ki then LessKeyMismatch else FailedToSort))"
proof (intro conjI impI allI)
  assume ok: "\<forall>i. 1 \<le> i \<and> i < l \<longrightarrow> Less data s i (i - 1) = Inr False"
  show "check data s l = Inr ()"
  proof (cases "1 \<le> l")
    case True
    with ok have "check_from data s l 1 = check_from data s l l"
      by (intro check_from_skip) auto
    then show ?thesis by (simp add: check_def check_from.simps [of data s l l])
  next
    case False
    then show ?thesis by (simp add: check_def check_from.simps [of data s l 1])
  qed
next
  fix i ki kj
  assume h: "1 \<le> i \<and> i < l \<and> (\<forall>j. 1 \<le> j \<and> j < i \<longrightarrow> Less data s j (j - 1) = Inr False) \<and>
       Less data s i (i - 1) = Inr True \<and> Key data s i = Inr ki \<and> Key data s (i - 1) = Inr kj"
  then have "check_from data s l 1 = check_from data s l i"
    by (intro check_from_skip) auto
  also have "\<dots> = Inl (if kj < ki then LessKeyMismatch else FailedToSort)"
    using h by (subst check_from.simps) simp
  finally show "check data s l = Inl (if kj < ki then LessKeyMismatch else FailedToSort)"
    by (simp add: check_def)
qed

text \<open>
  The claim as written ties the second diagnostic to equal keys. On the unsorted
  slice \<open>[5, 3]\<close> the keys of the pair differ and \<open>check\<close> panics with it.
\<close>

theorem check_equal_keys_counterexample:
  "check Uint64Slice [5, 3] 2 = Inl FailedToSort \<and>
   Less Uint64Slice [5, 3] 1 0 = Inr True \<and>
   Key Uint64Slice [5, 3] 1 = Inr 3 \<and> Key Uint64Slice [5, 3] 0 = Inr 5"
  by (simp add: check_def check_from.simps Uint64Slice_def slice_Interface_def slice_Less_def
      slice_Key_def at_def)

lemma int_lt_cases3: "1 \<le> (i::int) \<Longrightarrow> i < 3 \<Longrightarrow> i = 1 \<or> i = 2" by arith

theorem check_outcome_witness:
  "check Uint64Slice [1, 2, 3] 3 = Inr () \<and>
   check Uint64Slice [1, 3, 2] 3 = Inl FailedToSort \<and>
   check (slice_Interface (\<lambda>x y. y < x) (\<lambda>x. x)) [1, 2] 2 = Inl LessKeyMismatch"
proof -
  let ?U = "Uint64Slice" and ?D = "slice_Interface (\<lambda>x y. y < x) (\<lambda>x. x :: Key)"
  have a: "\<forall>i. 1 \<le> i \<and> i < 3 \<longrightarrow> Less ?U [1, 2, 3] i (i - 1) = Inr False"
    by (auto simp add: Uint64Slice_def slice_Interface_def slice_Less_def at_def dest!: int_lt_cases3)
  have b: "1 \<le> (2::int) \<and> (2::int) < 3 \<and>
      (\<forall>j. 1 \<le> j \<and> j < 2 \<longrightarrow> Less ?U [1, 3, 2] j (j - 1) = Inr False) \<and>
      Less ?U [1, 3, 2] 2 (2 - 1) = Inr True \<and> Key ?U [1, 3, 2] 2 = Inr 2 \<and>
      Key ?U [1, 3, 2] (2 - 1) = Inr 3"
    by (auto simp add: Uint64Slice_def slice_Interface_def slice_Less_def slice_Key_def at_def)
  have c: "1 \<le> (1::int) \<and> (1::int) < 2 \<and>
      (\<forall>j. 1 \<le> j \<and> j < 1 \<longrightarrow> Less ?D [1, 2] j (j - 1) = Inr False) \<and>
      Less ?D [1, 2] 1 (1 - 1) = Inr True \<and> Key ?D [1, 2] 1 = Inr 2 \<and>
      Key ?D [1, 2] (1 - 1) = Inr 1"
    by (auto simp add: slice_Interface_def slice_Less_def slice_Key_def at_def)
  from a check_outcome [of 3 ?U "[1, 2, 3]"]
  have "check ?U [1, 2, 3] 3 = Inr ()" by blast
  moreover from b check_outcome [of 3 ?U "[1, 3, 2]"]
  have "check ?U [1, 3, 2] 3 = Inl (if (3::Key) < 2 then LessKeyMismatch else FailedToSort)" by blast
  moreover from c check_outcome [of 2 ?D "[1, 2]"]
  have "check ?D [1, 2] 2 = Inl (if (1::Key) < 2 then LessKeyMismatch else FailedToSort)" by blast
  ultimately show ?thesis by simp
qed

section \<open>guessInitialShift\<close>

lemma top_bit_nonzero: "top_bit d h \<Longrightarrow> d \<noteq> 0"
  by (auto simp add: top_bit_def)

lemma top_bit_less: "top_bit d h \<Longrightarrow> h < 64"
  using bit_imp_le_length [of d h] by (simp add: top_bit_def)

lemma top_bit_unique: "top_bit d h \<Longrightarrow> top_bit d h' \<Longrightarrow> h = h'"
  by (metis top_bit_def linorder_neqE_nat)

lemma top_bit_exists:
  assumes "d \<noteq> 0"
  shows "\<exists>h. top_bit d h"
proof -
  let ?S = "{n. bit d n}"
  have "?S \<subseteq> {..<64}" using bit_imp_le_length [of d] by auto
  then have fin: "finite ?S" by (rule finite_subset) simp
  have ne: "?S \<noteq> {}"
  proof
    assume "?S = {}"
    then have "\<And>n. \<not> bit d n" by blast
    then have "d = 0" by (intro bit_eqI) simp
    with assms show False by simp
  qed
  have "Max ?S \<in> ?S" using fin ne by (rule Max_in)
  then have "bit d (Max ?S)" by simp
  moreover have "\<not> bit d n" if "Max ?S < n" for n
  proof
    assume "bit d n"
    then have "n \<le> Max ?S" using fin by (intro Max_ge) simp_all
    with that show False by simp
  qed
  ultimately show ?thesis unfolding top_bit_def by blast
qed

lemma drop_bit_eq_0_iff_top: 
  assumes "top_bit d h"
  shows "drop_bit n d = 0 \<longleftrightarrow> h < n"
proof
  assume z: "drop_bit n d = 0"
  show "h < n"
  proof (rule ccontr)
    assume "\<not> h < n"
    then have "bit (drop_bit n d) (h - n)" using assms by (simp add: bit_simps top_bit_def)
    with z show False by simp
  qed
next
  assume "h < n"
  then show "drop_bit n d = 0" using assms 
    by (intro bit_word_eqI) (auto simp add: bit_simps top_bit_def)
qed

lemma top_bit_drop:
  assumes "top_bit d h" and "n \<le> h"
  shows "top_bit (drop_bit n d) (h - n)"
  using assms by (auto simp add: top_bit_def bit_simps)

declare log2diff_by_radix.simps [simp del] log2diff_by_bit.simps [simp del]

lemma log2diff_by_radix_0: "log2diff_by_radix 0 acc = acc"
  by (subst log2diff_by_radix.simps) simp

lemma log2diff_by_radix_step:
  "diff \<noteq> 0 \<Longrightarrow> log2diff_by_radix diff acc = log2diff_by_radix (drop_bit 8 diff) (acc + 8)"
  apply (subst log2diff_by_radix.simps)
  apply (simp only: radix_def if_True not_False_eq_True)
  apply simp
  done

lemma log2diff_by_radix_top:
  "top_bit d h \<Longrightarrow> log2diff_by_radix d acc = acc + 8 * (int (h div 8) + 1)"
proof (induction d acc arbitrary: h rule: log2diff_by_radix.induct)
  case (1 diff log2diff)
  from "1.prems" have nz: "diff \<noteq> 0" by (rule top_bit_nonzero)
  show ?case
  proof (cases "h < 8")
    case True
    then have "drop_bit 8 diff = 0"
      using drop_bit_eq_0_iff_top [OF "1.prems", of 8] by simp
    then show ?thesis using True
      by (simp add: log2diff_by_radix_step [OF nz] log2diff_by_radix_0)
  next
    case False
    then have "top_bit (drop_bit radix diff) (h - 8)"
      using top_bit_drop [OF "1.prems", of 8] by (simp add: radix_def)
    from "1.IH" [OF nz this]
    have "log2diff_by_radix (drop_bit 8 diff) (log2diff + 8) = log2diff + 8 + 8 * (int ((h - 8) div 8) + 1)"
      by (simp add: radix_def)
    moreover have "int ((h - 8) div 8) + 1 = int (h div 8)"
      using False by (simp add: le_div_geq) 
    ultimately show ?thesis
      by (simp add: log2diff_by_radix_step [OF nz])
  qed
qed

lemma log2diff_by_bit_0: "log2diff_by_bit 0 acc = acc"
  by (subst log2diff_by_bit.simps) simp

lemma log2diff_by_bit_step:
  "diff \<noteq> 0 \<Longrightarrow> log2diff_by_bit diff acc = log2diff_by_bit (drop_bit 1 diff) (acc + 1)"
  apply (subst log2diff_by_bit.simps)
  apply (simp only: if_True not_False_eq_True)
  done

lemma log2diff_by_bit_top:
  "top_bit d h \<Longrightarrow> log2diff_by_bit d acc = acc + int h + 1"
proof (induction d acc arbitrary: h rule: log2diff_by_bit.induct)
  case (1 diff log2diff)
  from "1.prems" have nz: "diff \<noteq> 0" by (rule top_bit_nonzero)
  show ?case
  proof (cases "h < 1")
    case True
    then have "drop_bit 1 diff = 0"
      using drop_bit_eq_0_iff_top [OF "1.prems", of 1] by simp
    then show ?thesis using True
      by (simp add: log2diff_by_bit_step [OF nz] log2diff_by_bit_0)
  next
    case False
    then have "top_bit (drop_bit 1 diff) (h - 1)"
      using top_bit_drop [OF "1.prems", of 1] by simp
    from "1.IH" [OF nz this]
    have "log2diff_by_bit (drop_bit 1 diff) (log2diff + 1) = log2diff + 1 + int (h - 1) + 1" .
    moreover have "int (h - 1) + 1 = int h" using False by simp
    ultimately show ?thesis
      by (simp only: log2diff_by_bit_step [OF nz])
  qed
qed

lemma guess_step_pos: "0 \<le> l \<Longrightarrow> 1 \<le> guess_step l"
proof -
  assume "0 \<le> l"
  then have "0 \<le> l div 2 ^ 8" and "0 \<le> l div 2 ^ 5" by simp_all
  then show ?thesis by (simp add: guess_step_def Let_def)
qed

lemma stride_set_step:
  fixes step i l :: int
  assumes "1 \<le> step" and "i < l"
  shows "{j. i \<le> j \<and> j < l \<and> step dvd (j - i)} =
         insert i {j. i + step \<le> j \<and> j < l \<and> step dvd (j - (i + step))}"
proof -
  have dv: "step dvd (j - (i + step)) \<longleftrightarrow> step dvd (j - i)" for j
  proof -
    have "j - i = (j - (i + step)) + step" by arith
    then show ?thesis by (metis dvd_add_triv_right_iff)
  qed
  have big: "i + step \<le> j" if "i \<le> j" "j \<noteq> i" "step dvd (j - i)" for j
  proof -
    from that have "0 < j - i" by simp
    with that(3) have "step \<le> j - i" by (rule zdvd_imp_le)
    then show ?thesis by simp
  qed
  show ?thesis using assms by (auto simp add: dv dest: big)
qed

lemma guess_scan_result:
  assumes "1 \<le> step"
    and "\<forall>j. 0 \<le> j \<and> j < l \<longrightarrow> Key data s j = Inr (k j)"
    and "0 \<le> i"
    and "l + step \<le> 2 ^ 63"
  shows "guess_scan data s l step i (mn, mx) =
     Some (Inr (Min (insert mn (k ` {j. i \<le> j \<and> j < l \<and> step dvd (j - i)})),
                Max (insert mx (k ` {j. i \<le> j \<and> j < l \<and> step dvd (j - i)}))))"
  using assms(3)
proof (induction "nat (l - i)" arbitrary: i mn mx rule: less_induct)
  case less
  show ?case
  proof (cases "i < l")
    case False
    then have e: "{j. i \<le> j \<and> j < l \<and> step dvd (j - i)} = {}" by auto
    show ?thesis using False by (subst guess_scan.simps) (simp add: e)
  next
    case True
    let ?S = "{j. i + step \<le> j \<and> j < l \<and> step dvd (j - (i + step))}"
    have fin: "finite (k ` ?S)"
    proof (rule finite_imageI, rule finite_subset)
      show "?S \<subseteq> {i..l}" using assms(1) by auto
    qed simp
    have key: "Key data s i = Inr (k i)" using assms(2) True less.prems by simp
    have dec: "nat (l - (i + step)) < nat (l - i)" using True assms(1) by simp
    have nonneg: "0 \<le> i + step" using less.prems assms(1) by simp
    have wrap: "int64 (i + step) = i + step"
      using nonneg True assms(4) by (intro int64_id) simp_all
    have mn: "Min (insert (if k i < mn then k i else mn) (k ` ?S)) = Min (insert mn (insert (k i) (k ` ?S)))"
      using fin by (rule Min_insert_if)
    have mx: "Max (insert (if mx < k i then k i else mx) (k ` ?S)) = Max (insert mx (insert (k i) (k ` ?S)))"
      using fin by (rule Max_insert_if)
    show ?thesis
      apply (subst guess_scan.simps)
      apply (simp only: True if_True key sum.case fst_conv snd_conv wrap)
      apply (subst less.hyps [OF dec nonneg])
      apply (simp only: stride_set_step [OF assms(1) True] image_insert mn mx)
      done
  qed
qed

text \<open>
  C5, as the code has it. Let \<open>l \<ge> 1\<close> be such that the 64-bit index of the sampling
  loop does not overflow, \<open>l + stride \<le> 2^63\<close> (every \<open>l \<le> 2^62\<close> is such), and let
  \<open>Key\<close> return for every position below \<open>l\<close>. Then \<open>guessInitialShift\<close> returns; it
  has read the last element and every multiple of the stride (\<open>l div 32\<close>, or
  \<open>l div 256\<close> when \<open>l > 65536\<close>, and at least 1) below \<open>l\<close>. Its result is 0 when the
  smallest and the largest key read are equal, and otherwise the position of the
  highest set bit of their XOR rounded down to a multiple of 8. It is not reduced by
  8 after that: the code subtracts 8 from a count that was rounded up.
\<close>

theorem guessInitialShift_value:
  assumes "1 \<le> l" and "l + guess_step l \<le> 2 ^ 63"
    and "\<forall>j. 0 \<le> j \<and> j < l \<longrightarrow> Key data s j = Inr (k j)"
  shows "\<exists>r. guessInitialShift data s l = Some (Inr r) \<and>
           (sampled_diff k l = 0 \<longrightarrow> r = 0) \<and>
           (\<forall>h. top_bit (sampled_diff k l) h \<longrightarrow> r = 8 * (h div 8))"
proof -
  let ?st = "guess_step l"
  have st: "1 \<le> ?st" using assms(1) by (intro guess_step_pos) simp
  have last: "Key data s (l - 1) = Inr (k (l - 1))" using assms(1,3) by simp
  have scan: "guess_scan data s l ?st 0 (k (l - 1), k (l - 1)) =
     Some (Inr (Min (k ` sample_indices l), Max (k ` sample_indices l)))"
    using guess_scan_result [OF st assms(3) _ assms(2), of 0 "k (l - 1)" "k (l - 1)"]
    by (simp add: sample_indices_def)
  let ?d = "sampled_diff k l"
  have unf: "guessInitialShift data s l =
      (case Key data s (l - 1) of
         Inl e \<Rightarrow> Some (Inl e)
       | Inr k0 \<Rightarrow>
           (case guess_scan data s l ?st 0 (k0, k0) of
              None \<Rightarrow> None
            | Some (Inl e) \<Rightarrow> Some (Inl e)
            | Some (Inr (mn, mx)) \<Rightarrow>
                let diff = mn XOR mx;
                    log2diff = log2diff_by_radix diff 0;
                    shiftGuess = log2diff - int radix
                in if shiftGuess < 0 then Some (Inr 0) else Some (Inr (nat shiftGuess))))"
    unfolding guessInitialShift_def guess_step_def Let_def ..
  have g: "guessInitialShift data s l =
      (let log2diff = log2diff_by_radix ?d 0; shiftGuess = log2diff - int radix
       in if shiftGuess < 0 then Some (Inr 0) else Some (Inr (nat shiftGuess)))"
    unfolding unf by (simp add: last scan sampled_diff_def)
  show ?thesis
  proof (cases "?d = 0")
    case True
    then show ?thesis using g by (auto simp add: log2diff_by_radix_0 radix_def dest: top_bit_nonzero)
  next
    case False
    then obtain h where h: "top_bit ?d h" using top_bit_exists by blast
    have "guessInitialShift data s l = Some (Inr (8 * (h div 8)))"
      using g by (simp add: log2diff_by_radix_top [OF h] radix_def Let_def nat_mult_distrib)
    then show ?thesis using False h by (auto dest: top_bit_unique)
  qed
qed

lemma top_bit_32: "top_bit 0xFFFFFFFF 31"
proof -
  have e: "(0xFFFFFFFF :: Key) = mask 32" by (simp add: mask_eq_exp_minus_1)
  show ?thesis unfolding top_bit_def e by (simp add: bit_mask_iff)
qed

lemma top_bit_31: "top_bit 0x7FFFFFFF 30"
proof -
  have e: "(0x7FFFFFFF :: Key) = mask 31" by (simp add: mask_eq_exp_minus_1)
  show ?thesis unfolding top_bit_def e by (simp add: bit_mask_iff)
qed

text \<open>
  For keys 0 and \<open>2^31 - 1\<close> the highest set bit of the XOR is bit 30, the 31st bit.
  The guess is 24; the claim's formula gives 16, whether the position is counted
  from 0 or from 1.
\<close>

theorem guessInitialShift_counterexample:
  "guessInitialShift Uint64Slice [0, 0x7FFFFFFF] 2 = Some (Inr 24) \<and>
   top_bit (0 XOR 0x7FFFFFFF) 30 \<and> claimed_shift 30 = 16 \<and> claimed_shift (30 + 1) = 16"
  by (simp add: guessInitialShift_def guess_scan.simps Uint64Slice_def slice_Interface_def
      slice_Key_def at_def log2diff_by_radix_step log2diff_by_radix_0 radix_def top_bit_31
      claimed_shift_def int64_def)

theorem guessInitialShift_value_witness:
  "guessInitialShift Uint64Slice [0, 0xFFFFFFFF] 2 = Some (Inr 24)"
proof -
  let ?k = "\<lambda>j. [0, 0xFFFFFFFF :: Key] ! nat j"
  have keys: "\<forall>j. 0 \<le> j \<and> j < 2 \<longrightarrow> Key Uint64Slice [0, 0xFFFFFFFF] j = Inr (?k j)"
    by (simp add: Uint64Slice_def slice_Interface_def slice_Key_def at_def)
  have bound: "(2::int) + guess_step 2 \<le> 2 ^ 63"
    by (simp add: guess_step_def)
  have "sample_indices 2 = {0, 1}"
    by (auto simp add: sample_indices_def guess_step_def)
  then have d: "sampled_diff ?k 2 = 0xFFFFFFFF"
    by (simp add: sampled_diff_def)
  from guessInitialShift_value [of 2 Uint64Slice "[0, 0xFFFFFFFF]" ?k, OF _ bound keys]
  obtain r where "guessInitialShift Uint64Slice [0, 0xFFFFFFFF] 2 = Some (Inr r)"
    and "\<forall>h. top_bit (sampled_diff ?k 2) h \<longrightarrow> r = 8 * (h div 8)" by auto
  then show ?thesis using top_bit_32 d by auto
qed

section \<open>SetKeys of the string and bytes index builders\<close>

declare stringIndexBuilder_SetKeys_from.simps [simp del]
declare bytesIndexBuilder_SetKeys_from.simps [simp del]

lemma map_nth_if_upd:
  assumes "i < length keys"
  shows "map (\<lambda>n. if P n then f n else (keys[i := v]) ! n) [0..<length keys] =
         map (\<lambda>n. if P n then f n else if n = i then v else keys ! n) [0..<length keys]"
  using assms by (intro map_cong) (auto simp add: nth_list_update)

lemma string_SetKeys_from_result:
  assumes "\<forall>j. a \<le> j \<and> j < l \<and> j < a + int n \<longrightarrow> StringAt sib s j = Inr (str j)"
    and "0 \<le> i" and "i + a \<le> l" and "length keys = n"
  shows "stringIndexBuilder_SetKeys_from sib s a l keys i =
     Inr (map (\<lambda>n. if i \<le> int n \<and> int n + a < l then stringKey (str (int n + a)) else keys ! n)
            [0..<length keys])"
  using assms(2,3,4)
proof (induction "nat (int (length keys) - i)" arbitrary: i keys)
  case 0
  from 0(1) have "\<And>n. n < length keys \<Longrightarrow> \<not> i \<le> int n" by simp
  then have "map (\<lambda>n. if i \<le> int n \<and> int n + a < l then stringKey (str (int n + a)) else keys ! n)
            [0..<length keys] = map (\<lambda>n. keys ! n) [0..<length keys]"
    by (intro map_cong) auto
  then have e: "map (\<lambda>n. if i \<le> int n \<and> int n + a < l then stringKey (str (int n + a)) else keys ! n)
            [0..<length keys] = keys"
    by (simp add: map_nth)
  have "\<not> i < int (length keys)" using 0(1) by simp
  then show ?case
    by (subst stringIndexBuilder_SetKeys_from.simps) (simp add: e)
next
  case (Suc m)
  then have il: "i < int (length keys)" by linarith
  show ?case
  proof (cases "i + a = l")
    case True
    then have "map (\<lambda>n. if i \<le> int n \<and> int n + a < l then stringKey (str (int n + a)) else keys ! n)
            [0..<length keys] = map (\<lambda>n. keys ! n) [0..<length keys]"
      by (intro map_cong) auto
    then have e: "map (\<lambda>n. if i \<le> int n \<and> int n + a < l then stringKey (str (int n + a)) else keys ! n)
            [0..<length keys] = keys"
      by (simp add: map_nth)
    show ?thesis
      by (subst stringIndexBuilder_SetKeys_from.simps) (simp add: il True e)
  next
    case False
    with Suc.prems have lt: "i + a < l" by simp
    then have at: "StringAt sib s (i + a) = Inr (str (i + a))"
      using assms(1) Suc.prems il by simp
    let ?keys = "keys[nat i := stringKey (str (i + a))]"
    have m: "m = nat (int (length ?keys) - (i + 1))" using Suc.hyps(2) by simp
    have ih: "stringIndexBuilder_SetKeys_from sib s a l ?keys (i + 1) =
       Inr (map (\<lambda>n. if i + 1 \<le> int n \<and> int n + a < l then stringKey (str (int n + a)) else ?keys ! n)
            [0..<length ?keys])"
      using Suc.prems lt by (intro Suc.hyps(1) [OF m]) simp_all
    have eq: "map (\<lambda>n. if i + 1 \<le> int n \<and> int n + a < l then stringKey (str (int n + a)) else ?keys ! n)
            [0..<length ?keys] =
         map (\<lambda>n. if i \<le> int n \<and> int n + a < l then stringKey (str (int n + a)) else keys ! n)
            [0..<length keys]"
    proof (rule map_cong)
      fix n assume "n \<in> set [0..<length keys]"
      then have n: "n < length keys" by simp
      show "(if i + 1 \<le> int n \<and> int n + a < l then stringKey (str (int n + a)) else ?keys ! n) =
            (if i \<le> int n \<and> int n + a < l then stringKey (str (int n + a)) else keys ! n)"
      proof (cases "int n = i")
        case True
        then have "nat i = n" by simp
        then show ?thesis using True lt n by simp
      next
        case False
        then have "nat i \<noteq> n" using Suc.prems(1) by auto
        then show ?thesis using False by auto
      qed
    qed simp
    show ?thesis
      apply (subst stringIndexBuilder_SetKeys_from.simps)
      apply (simp only: il False if_True if_False at sum.case ih eq)
      done
  qed
qed

lemma bytes_SetKeys_from_result:
  assumes "\<forall>j. a \<le> j \<and> j < l \<and> j < a + int n \<longrightarrow> BytesAt bib s j = Inr (byt j)"
    and "0 \<le> i" and "i + a \<le> l" and "length keys = n"
  shows "bytesIndexBuilder_SetKeys_from bib s a l keys i =
     Inr (map (\<lambda>n. if i \<le> int n \<and> int n + a < l then bytesKey (byt (int n + a)) else keys ! n)
            [0..<length keys])"
  using assms(2,3,4)
proof (induction "nat (int (length keys) - i)" arbitrary: i keys)
  case 0
  from 0(1) have "\<And>n. n < length keys \<Longrightarrow> \<not> i \<le> int n" by simp
  then have "map (\<lambda>n. if i \<le> int n \<and> int n + a < l then bytesKey (byt (int n + a)) else keys ! n)
            [0..<length keys] = map (\<lambda>n. keys ! n) [0..<length keys]"
    by (intro map_cong) auto
  then have e: "map (\<lambda>n. if i \<le> int n \<and> int n + a < l then bytesKey (byt (int n + a)) else keys ! n)
            [0..<length keys] = keys"
    by (simp add: map_nth)
  have "\<not> i < int (length keys)" using 0(1) by simp
  then show ?case
    by (subst bytesIndexBuilder_SetKeys_from.simps) (simp add: e)
next
  case (Suc m)
  then have il: "i < int (length keys)" by linarith
  show ?case
  proof (cases "i + a = l")
    case True
    then have "map (\<lambda>n. if i \<le> int n \<and> int n + a < l then bytesKey (byt (int n + a)) else keys ! n)
            [0..<length keys] = map (\<lambda>n. keys ! n) [0..<length keys]"
      by (intro map_cong) auto
    then have e: "map (\<lambda>n. if i \<le> int n \<and> int n + a < l then bytesKey (byt (int n + a)) else keys ! n)
            [0..<length keys] = keys"
      by (simp add: map_nth)
    show ?thesis
      by (subst bytesIndexBuilder_SetKeys_from.simps) (simp add: il True e)
  next
    case False
    with Suc.prems have lt: "i + a < l" by simp
    then have at: "BytesAt bib s (i + a) = Inr (byt (i + a))"
      using assms(1) Suc.prems il by simp
    let ?keys = "keys[nat i := bytesKey (byt (i + a))]"
    have m: "m = nat (int (length ?keys) - (i + 1))" using Suc.hyps(2) by simp
    have ih: "bytesIndexBuilder_SetKeys_from bib s a l ?keys (i + 1) =
       Inr (map (\<lambda>n. if i + 1 \<le> int n \<and> int n + a < l then bytesKey (byt (int n + a)) else ?keys ! n)
            [0..<length ?keys])"
      using Suc.prems lt by (intro Suc.hyps(1) [OF m]) simp_all
    have eq: "map (\<lambda>n. if i + 1 \<le> int n \<and> int n + a < l then bytesKey (byt (int n + a)) else ?keys ! n)
            [0..<length ?keys] =
         map (\<lambda>n. if i \<le> int n \<and> int n + a < l then bytesKey (byt (int n + a)) else keys ! n)
            [0..<length keys]"
    proof (rule map_cong)
      fix n assume "n \<in> set [0..<length keys]"
      then have n: "n < length keys" by simp
      show "(if i + 1 \<le> int n \<and> int n + a < l then bytesKey (byt (int n + a)) else ?keys ! n) =
            (if i \<le> int n \<and> int n + a < l then bytesKey (byt (int n + a)) else keys ! n)"
      proof (cases "int n = i")
        case True
        then have "nat i = n" by simp
        then show ?thesis using True lt n by simp
      next
        case False
        then have "nat i \<noteq> n" using Suc.prems(1) by auto
        then show ?thesis using False by auto
      qed
    qed simp
    show ?thesis
      apply (subst bytesIndexBuilder_SetKeys_from.simps)
      apply (simp only: il False if_True if_False at sum.case ih eq)
      done
  qed
qed

text \<open>
  C9, as the code has it. For an offset \<open>a\<close> with \<open>0 \<le> a \<le> Len\<close>, where \<^verbatim>\<open>StringAt\<close>
  (\<^verbatim>\<open>BytesAt\<close>) returns for the positions \<open>a \<le> j < min (a + length keys) Len\<close>,
  \<^verbatim>\<open>SetKeys\<close> of the string (bytes) index builder returns the key array with entry
  \<open>n\<close> replaced by the prefix key of element \<open>n + a\<close> for every
  \<open>n < min (length keys) (Len - a)\<close> and every other entry unchanged; nothing is
  assumed of any other position, so no other element is read. At the offset \<open>Len\<close> it
  returns the key array as it is whatever \<^verbatim>\<open>StringAt\<close> (\<^verbatim>\<open>BytesAt\<close>) does: no element
  is read. The loop stops only where \<open>i + a = l\<close>, so nothing is promised for an offset
  outside \<open>0 \<le> a \<le> Len\<close>.
\<close>

theorem SetKeys_fills_prefix:
  "(0 \<le> a \<and> a \<le> Len sib s \<and>
      (\<forall>j. a \<le> j \<and> j < Len sib s \<and> j < a + int (length keys) \<longrightarrow>
         StringAt sib s j = Inr (str j)) \<longrightarrow>
      stringIndexBuilder_SetKeys sib s keys a =
        Inr (map (\<lambda>n. if int n < Len sib s - a then stringKey (str (int n + a)) else keys ! n)
               [0..<length keys])) \<and>
   stringIndexBuilder_SetKeys sib s keys (Len sib s) = Inr keys \<and>
   (0 \<le> a \<and> a \<le> Len bib t \<and>
      (\<forall>j. a \<le> j \<and> j < Len bib t \<and> j < a + int (length keys) \<longrightarrow>
         BytesAt bib t j = Inr (byt j)) \<longrightarrow>
      bytesIndexBuilder_SetKeys bib t keys a =
        Inr (map (\<lambda>n. if int n < Len bib t - a then bytesKey (byt (int n + a)) else keys ! n)
               [0..<length keys])) \<and>
   bytesIndexBuilder_SetKeys bib t keys (Len bib t) = Inr keys"
proof (intro conjI impI)
  assume h: "0 \<le> a \<and> a \<le> Len sib s \<and>
      (\<forall>j. a \<le> j \<and> j < Len sib s \<and> j < a + int (length keys) \<longrightarrow>
         StringAt sib s j = Inr (str j))"
  have c: "(0 \<le> int n \<and> int n + a < Len sib s) = (int n < Len sib s - a)" for n by auto
  from h have "stringIndexBuilder_SetKeys_from sib s a (Len sib s) keys 0 =
     Inr (map (\<lambda>n. if 0 \<le> int n \<and> int n + a < Len sib s then stringKey (str (int n + a)) else keys ! n)
            [0..<length keys])"
    by (intro string_SetKeys_from_result [where n = "length keys"]) auto
  then show "stringIndexBuilder_SetKeys sib s keys a =
        Inr (map (\<lambda>n. if int n < Len sib s - a then stringKey (str (int n + a)) else keys ! n)
               [0..<length keys])"
    by (simp only: stringIndexBuilder_SetKeys_def Let_def c)
next
  have "stringIndexBuilder_SetKeys_from sib s (Len sib s) (Len sib s) keys 0 =
     Inr (map (\<lambda>n. if 0 \<le> int n \<and> int n + Len sib s < Len sib s
                    then stringKey (undefined (int n + Len sib s)) else keys ! n)
            [0..<length keys])"
    by (intro string_SetKeys_from_result [where n = "length keys"]) auto
  moreover have "map (\<lambda>n. if 0 \<le> int n \<and> int n + Len sib s < Len sib s
                    then stringKey (undefined (int n + Len sib s)) else keys ! n)
            [0..<length keys] = map (\<lambda>n. keys ! n) [0..<length keys]"
    by (intro map_cong) auto
  ultimately show "stringIndexBuilder_SetKeys sib s keys (Len sib s) = Inr keys"
    by (simp add: stringIndexBuilder_SetKeys_def map_nth)
next
  assume h: "0 \<le> a \<and> a \<le> Len bib t \<and>
      (\<forall>j. a \<le> j \<and> j < Len bib t \<and> j < a + int (length keys) \<longrightarrow>
         BytesAt bib t j = Inr (byt j))"
  have c: "(0 \<le> int n \<and> int n + a < Len bib t) = (int n < Len bib t - a)" for n by auto
  from h have "bytesIndexBuilder_SetKeys_from bib t a (Len bib t) keys 0 =
     Inr (map (\<lambda>n. if 0 \<le> int n \<and> int n + a < Len bib t then bytesKey (byt (int n + a)) else keys ! n)
            [0..<length keys])"
    by (intro bytes_SetKeys_from_result [where n = "length keys"]) auto
  then show "bytesIndexBuilder_SetKeys bib t keys a =
        Inr (map (\<lambda>n. if int n < Len bib t - a then bytesKey (byt (int n + a)) else keys ! n)
               [0..<length keys])"
    by (simp only: bytesIndexBuilder_SetKeys_def Let_def c)
next
  have "bytesIndexBuilder_SetKeys_from bib t (Len bib t) (Len bib t) keys 0 =
     Inr (map (\<lambda>n. if 0 \<le> int n \<and> int n + Len bib t < Len bib t
                    then bytesKey (undefined (int n + Len bib t)) else keys ! n)
            [0..<length keys])"
    by (intro bytes_SetKeys_from_result [where n = "length keys"]) auto
  moreover have "map (\<lambda>n. if 0 \<le> int n \<and> int n + Len bib t < Len bib t
                    then bytesKey (undefined (int n + Len bib t)) else keys ! n)
            [0..<length keys] = map (\<lambda>n. keys ! n) [0..<length keys]"
    by (intro map_cong) auto
  ultimately show "bytesIndexBuilder_SetKeys bib t keys (Len bib t) = Inr keys"
    by (simp add: bytesIndexBuilder_SetKeys_def map_nth)
qed

text \<open>
  With an offset above the length the test \<open>i + a = l\<close> never holds: the element at
  position \<open>i + a\<close> is read, and for a slice that read panics.
\<close>

theorem SetKeys_offset_counterexample:
  "stringIndexBuilder_SetKeys StringSlice [''a''] [0] 2 = Inl IndexOutOfRange \<and>
   bytesIndexBuilder_SetKeys BytesSlice [[1]] [0] 2 = Inl IndexOutOfRange"
  by (simp add: stringIndexBuilder_SetKeys_def stringIndexBuilder_SetKeys_from.simps
      bytesIndexBuilder_SetKeys_def bytesIndexBuilder_SetKeys_from.simps
      StringSlice_def BytesSlice_def at_def)

text \<open>
  Outside \<open>0 \<le> a \<le> Len\<close>, with a key array that is not empty, the first thing the loop
  does is read the element at position \<open>a\<close>; a panic of that read is the outcome.
\<close>

lemma SetKeys_offset_outside:
  assumes "a < 0 \<or> Len sib s < a" and "keys \<noteq> []" and "0 \<le> Len sib s"
    and "StringAt sib s a = Inl e"
  shows "stringIndexBuilder_SetKeys sib s keys a = Inl e"
proof -
  have "0 < int (length keys)" using assms(2) by simp
  moreover have "0 + a \<noteq> Len sib s" using assms(1,3) by auto
  ultimately show ?thesis
    unfolding stringIndexBuilder_SetKeys_def Let_def
    by (subst stringIndexBuilder_SetKeys_from.simps) (simp add: assms(4))
qed

lemma upt_3: "[0..<3] = [0, 1, 2]"
  by (simp add: upt_rec)

theorem SetKeys_fills_prefix_witness:
  "stringIndexBuilder_SetKeys StringSlice [''ab'', ''c''] [7, 7, 7] 1 =
     Inr [0x6300000000000000, 7, 7] \<and>
   bytesIndexBuilder_SetKeys BytesSlice [[1, 2], [3]] [7, 7, 7] 1 =
     Inr [0x0300000000000000, 7, 7]"
proof -
  let ?str = "\<lambda>j. [''ab'', ''c''] ! nat j" and ?byt = "\<lambda>j. [[1, 2], [3 :: 8 word]] ! nat j"
  have hs: "0 \<le> (1::int) \<and> 1 \<le> Len StringSlice [''ab'', ''c''] \<and>
      (\<forall>j. 1 \<le> j \<and> j < Len StringSlice [''ab'', ''c''] \<and> j < 1 + int (length [7, 7, 7 :: Key]) \<longrightarrow>
         StringAt StringSlice [''ab'', ''c''] j = Inr (?str j))"
    by (simp add: StringSlice_def at_def)
  have hb: "0 \<le> (1::int) \<and> 1 \<le> Len BytesSlice [[1, 2], [3]] \<and>
      (\<forall>j. 1 \<le> j \<and> j < Len BytesSlice [[1, 2], [3]] \<and> j < 1 + int (length [7, 7, 7 :: Key]) \<longrightarrow>
         BytesAt BytesSlice [[1, 2], [3]] j = Inr (?byt j))"
    by (simp add: BytesSlice_def at_def)
  have ls: "Len StringSlice [''ab'', ''c''] = 2" by (simp add: StringSlice_def)
  have lb: "Len BytesSlice [[1, 2], [3]] = 2" by (simp add: BytesSlice_def)
  have ks: "stringKey ''c'' = 0x6300000000000000"
    by (simp add: stringKey_def stringKey_from.simps)
  have kb: "bytesKey [3] = 0x0300000000000000"
    by (simp add: bytesKey_def bytesKey_from.simps)
  from SetKeys_fills_prefix [of 1 StringSlice "[''ab'', ''c'']" "[7, 7, 7]" ?str BytesSlice "[[1, 2], [3]]" ?byt]
    hs hb
  have "stringIndexBuilder_SetKeys StringSlice [''ab'', ''c''] [7, 7, 7] 1 =
        Inr (map (\<lambda>n. if int n < Len StringSlice [''ab'', ''c''] - 1 then stringKey (?str (int n + 1)) else [7, 7, 7] ! n)
               [0..<length [7, 7, 7 :: Key]])"
    and "bytesIndexBuilder_SetKeys BytesSlice [[1, 2], [3]] [7, 7, 7] 1 =
        Inr (map (\<lambda>n. if int n < Len BytesSlice [[1, 2], [3]] - 1 then bytesKey (?byt (int n + 1)) else [7, 7, 7] ! n)
               [0..<length [7, 7, 7 :: Key]])"
    by blast+
  then show ?thesis by (simp add: ls lb ks kb upt_3)
qed

section \<open>Ranges of equal keys\<close>

lemma Min_eq_Max_iff:
  assumes "finite K" and "K \<noteq> {}"
  shows "Min K = Max K \<longleftrightarrow> (\<forall>x\<in>K. \<forall>y\<in>K. x = y)"
proof
  assume e: "Min K = Max K"
  show "\<forall>x\<in>K. \<forall>y\<in>K. x = y"
  proof (intro ballI)
    fix x y assume "x \<in> K" "y \<in> K"
    then have "Min K \<le> x" "x \<le> Max K" "Min K \<le> y" "y \<le> Max K"
      using assms(1) by simp_all
    with e show "x = y" by simp
  qed
next
  assume "\<forall>x\<in>K. \<forall>y\<in>K. x = y"
  moreover have "Min K \<in> K" "Max K \<in> K" using assms by simp_all
  ultimately show "Min K = Max K" by blast
qed

declare radixSort.simps [simp del]

text \<open>
  C6. On a lawful collection and a range \<open>a \<le> b \<le> Len\<close>: when the range has at least
  \<^verbatim>\<open>qSortCutoff\<close> elements and its smallest key equals its largest, a \<open>radixSort\<close>
  call is one call of \<^verbatim>\<open>qSort\<close> on the whole range, started from the state the call
  was given; and so is a call on a range of any size whose keys are all equal. Nothing
  is exchanged and no bucket is formed before the delegation.
\<close>

theorem radixSort_equal_keys:
  assumes "lawful data elems key lt" and "elems s = Some xs" and "a \<le> b" and "b \<le> length xs"
  shows "(qSortCutoff \<le> int b - int a \<and>
            Min (key ` set (segment a b xs)) = Max (key ` set (segment a b xs)) \<longrightarrow>
          radixSort (Suc depth) qSort data shift (int a) (int b) s = qSort data (int a) (int b) s) \<and>
         ((\<forall>x\<in>key ` set (segment a b xs). \<forall>y\<in>key ` set (segment a b xs). x = y) \<longrightarrow>
          radixSort (Suc depth) qSort data shift (int a) (int b) s = qSort data (int a) (int b) s)"
proof -
  let ?K = "key ` set (segment a b xs)"
  have main: "radixSort (Suc depth) qSort data shift (int a) (int b) s = qSort data (int a) (int b) s"
    if "a < b \<Longrightarrow> Min ?K = Max ?K"
  proof (cases "int b - int a < qSortCutoff")
    case True
    show ?thesis
      apply (subst radixSort.simps)
      apply (simp only: True if_True)
      done
  next
    case False
    then have "a < b" by (simp add: qSortCutoff_def)
    define counts where "counts =
      map (\<lambda>v. int (bucket_count (\<lambda>x. digit shift (key x)) (mset (segment a b xs)) v)) [0..<256]"
    have sc: "scan_range data s shift (int a) (int b) = Inr (counts, Min ?K, Max ?K)"
      unfolding counts_def using \<open>a < b\<close> assms(4) by (rule scan_range_result [OF assms(1,2)])
    have sc': "scan_range data s shift (int a) (int b) = Inr (counts, Max ?K, Max ?K)"
      using sc that [OF \<open>a < b\<close>] by simp
    show ?thesis
      apply (subst radixSort.simps)
      apply (simp only: False if_False sc' sum.case prod.case Let_def)
      apply simp
      done
  qed
  have eq: "Min ?K = Max ?K" if "\<forall>x\<in>?K. \<forall>y\<in>?K. x = y" and "a < b"
  proof -
    have "xs ! a \<in> set (segment a b xs)" using that(2) assms(4) by (simp add: segment_Cons)
    then have ne: "?K \<noteq> {}" by auto
    have fin: "finite ?K" by simp
    from Min_eq_Max_iff [OF fin ne] that(1) show ?thesis by blast
  qed
  show ?thesis
  proof (intro conjI impI)
    assume "qSortCutoff \<le> int b - int a \<and> Min ?K = Max ?K"
    then have "Min ?K = Max ?K" ..
    then show "radixSort (Suc depth) qSort data shift (int a) (int b) s = qSort data (int a) (int b) s"
      by (rule main)
  next
    assume "\<forall>x\<in>?K. \<forall>y\<in>?K. x = y"
    then have "a < b \<Longrightarrow> Min ?K = Max ?K" by (rule eq)
    then show "radixSort (Suc depth) qSort data shift (int a) (int b) s = qSort data (int a) (int b) s"
      by (rule main)
  qed
qed


theorem radixSort_equal_keys_witness:
  "radixSort (Suc 0) qSort_model Uint64Slice 0 0 200 (replicate 200 5) =
   qSort_model Uint64Slice 0 200 (replicate 200 5)"
proof -
  let ?xs = "replicate 200 (5 :: Key)"
  have law: "lawful Uint64Slice Some (\<lambda>x. x) (\<lambda>x y. x < y)"
    unfolding Uint64Slice_def by (rule lawful_slice)
  have seg: "segment 0 200 ?xs = ?xs" by (simp add: segment_def)
  have h: "qSortCutoff \<le> int 200 - int 0 \<and>
      Min ((\<lambda>x. x) ` set (segment 0 200 ?xs)) = Max ((\<lambda>x. x) ` set (segment 0 200 ?xs))"
    by (simp add: seg qSortCutoff_def)
  from radixSort_equal_keys [OF law, of ?xs ?xs 0 200 0 qSort_model 0] h
  have "radixSort (Suc 0) qSort_model Uint64Slice 0 (int 0) (int 200) ?xs =
        qSort_model Uint64Slice (int 0) (int 200) ?xs"
    by simp
  then show ?thesis by simp
qed

end
